theory Spec2Isabelle
  imports Main "HOL-Library.Word"
begin

unbundle bit_operations_syntax

section \<open>Common types\<close>

text \<open>
  Modelled from the spec: types.h is not among the sources. \<open>uchar\<close>, \<open>uint\<close> and
  \<open>uint64\<close> are the unsigned integers of 8, 32 and 64 bits of the RISC-V kernel.
\<close>

type_synonym uchar = "8 word"
type_synonym uint = "32 word"
type_synonym uint64 = "64 word"

text \<open>
  How a kernel call ends. \<open>Returns\<close> is the ordinary return. \<open>Sleeps\<close> is a call
  suspended in \<open>acquiresleep\<close> on a sleep lock that another holder has: the work done
  under the spin locks before is in the state it carries. \<open>Panics\<close> is a call of
  \<open>panic\<close> with its message. \<open>Faults\<close> is a null pointer dereference or an array
  index out of bounds. \<open>Diverges\<close> is a loop over a chain that never reaches its end.
\<close>

datatype 'a outcome = Returns 'a | Sleeps 'a | Panics string | Faults | Diverges

section \<open>Physical page allocator (kernel/kalloc.c)\<close>

text \<open>
  Modelled from the spec: \<open>PGSIZE\<close> is defined in riscv.h, which is not among the
  sources. The page size is the one of the header comment of kalloc.c: the allocator
  hands out whole 4096-byte pages.
\<close>

definition PGSIZE :: nat where
  "PGSIZE = 4096"

text \<open>
  Modelled from the spec: \<open>acquire\<close> and \<open>release\<close> of the spin locks
  \<open>mem[i].lock\<close> are in spinlock.c, which is not among the sources. Each call of the
  allocator to them is recorded, in order, in \<open>lock_trace\<close>. \<open>push_off\<close> and
  \<open>pop_off\<close> only keep the thread on its CPU and change nothing here.
\<close>

datatype lock_event = Acquire nat | Release nat

text \<open>
  \<open>mem[i].freelist\<close> is a \<open>struct run *\<close>: a physical address, 0 for the null pointer.
  \<open>memory\<close> is physical memory, byte by byte. A \<open>struct run\<close> is one pointer,
  \<open>next\<close>, stored in the first eight bytes of its page (RISC-V is little-endian).
\<close>

record kmem =
  freelist :: "nat \<Rightarrow> uint64"
  memory :: "uint64 \<Rightarrow> uchar"
  lock_trace :: "lock_event list"

definition acquire :: "nat \<Rightarrow> kmem \<Rightarrow> kmem" where
  "acquire i s = s\<lparr>lock_trace := lock_trace s @ [Acquire i]\<rparr>"

definition release :: "nat \<Rightarrow> kmem \<Rightarrow> kmem" where
  "release i s = s\<lparr>lock_trace := lock_trace s @ [Release i]\<rparr>"

text \<open>
  Modelled from the spec: \<open>memset\<close> is in string.c, which is not among the sources.
  \<open>memset(dst, c, n)\<close> overwrites the \<open>n\<close> bytes from \<open>dst\<close> on with \<open>c\<close>.
\<close>

definition memset :: "(uint64 \<Rightarrow> uchar) \<Rightarrow> uint64 \<Rightarrow> uchar \<Rightarrow> nat \<Rightarrow> (uint64 \<Rightarrow> uchar)" where
  "memset m dst c n = fold (\<lambda>k m'. m'(dst + of_nat k := c)) [0..<n] m"

text \<open>Reading and writing the pointer \<open>r->next\<close> at address \<open>r\<close>.\<close>

definition store_next :: "(uint64 \<Rightarrow> uchar) \<Rightarrow> uint64 \<Rightarrow> uint64 \<Rightarrow> (uint64 \<Rightarrow> uchar)" where
  "store_next m r v = fold (\<lambda>k m'. m'(r + of_nat k := ucast (drop_bit (8 * k) v))) [0..<8] m"

definition load_next :: "(uint64 \<Rightarrow> uchar) \<Rightarrow> uint64 \<Rightarrow> uint64" where
  "load_next m r = fold (\<lambda>k v. v OR push_bit (8 * k) (ucast (m (r + of_nat k)))) [0..<8] 0"

text \<open>
  \<open>kfree(pa)\<close>, run on the CPU \<open>id = cpuid()\<close>, written \<open>id'\<close> here. \<open>end\<close> (the
  first address after the kernel, from kernel.ld) and \<open>PHYSTOP\<close> (memlayout.h) are
  parameters.
\<close>

definition kfree :: "uint64 \<Rightarrow> uint64 \<Rightarrow> nat \<Rightarrow> uint64 \<Rightarrow> kmem \<Rightarrow> kmem outcome" where
  "kfree end PHYSTOP id' pa s =
    (if unat pa mod PGSIZE \<noteq> 0 \<or> pa < end \<or> pa \<ge> PHYSTOP then Panics ''kfree''
     else
       let s1 = s\<lparr>memory := memset (memory s) pa 1 PGSIZE\<rparr>;
           s2 = acquire id' s1;
           s3 = s2\<lparr>memory := store_next (memory s2) pa (freelist s2 id')\<rparr>;
           s4 = s3\<lparr>freelist := (freelist s3)(id' := pa)\<rparr>
       in Returns (release id' s4))"

text \<open>
  The body shared by both places of \<open>kalloc\<close> that take a page \<open>r\<close> off the list of
  CPU \<open>i\<close>, whose lock is held: unlink, release, fill with 5.
\<close>

definition take_page :: "nat \<Rightarrow> uint64 \<Rightarrow> kmem \<Rightarrow> kmem" where
  "take_page i r s =
    (let s1 = s\<lparr>freelist := (freelist s)(i := load_next (memory s) r)\<rparr>;
         s2 = release i s1
     in s2\<lparr>memory := memset (memory s2) r 5 PGSIZE\<rparr>)"

text \<open>
  The loop \<open>for(int i = 0; i < NCPU; i++)\<close> of \<open>kalloc\<close>, over the CPUs still to
  visit; \<open>r\<close> is the local variable, returned as it stands when the loop runs out.
\<close>

fun steal :: "nat \<Rightarrow> nat list \<Rightarrow> uint64 \<Rightarrow> kmem \<Rightarrow> uint64 \<times> kmem" where
  "steal id' [] r s = (r, s)"
| "steal id' (i # cpus) r s =
    (if id' = i then steal id' cpus r s
     else
       let s1 = acquire i s;
           r' = freelist s1 i
       in if r' \<noteq> 0 then (r', take_page i r' s1)
          else steal id' cpus r' (release i s1))"

definition kalloc :: "nat \<Rightarrow> nat \<Rightarrow> kmem \<Rightarrow> uint64 \<times> kmem" where
  "kalloc NCPU id' s =
    (let s1 = acquire id' s;
         r = freelist s1 id'
     in if r \<noteq> 0 then (r, take_page id' r s1)
        else steal id' [0..<NCPU] r (release id' s1))"

text \<open>The other CPUs, in the order the loop of \<open>kalloc\<close> meets them.\<close>

definition peers :: "nat \<Rightarrow> nat \<Rightarrow> nat list" where
  "peers NCPU id' = filter (\<lambda>i. i \<noteq> id') [0..<NCPU]"

text \<open>The lock events of one visit to the list of CPU \<open>i\<close>.\<close>

definition visit :: "nat \<Rightarrow> lock_event list" where
  "visit i = [Acquire i, Release i]"

text \<open>
  A sequence of lock events in which at most one lock is held at any time; the first
  argument is the lock held at the start, if any.
\<close>

fun one_at_a_time :: "nat option \<Rightarrow> lock_event list \<Rightarrow> bool" where
  "one_at_a_time h [] = True"
| "one_at_a_time None (Acquire i # es) = one_at_a_time (Some i) es"
| "one_at_a_time (Some j) (Acquire i # es) = False"
| "one_at_a_time (Some j) (Release i # es) = (i = j \<and> one_at_a_time None es)"
| "one_at_a_time None (Release i # es) = False"

text \<open>An allocator with empty lists over zeroed memory.\<close>

definition kmem0 :: kmem where
  "kmem0 = \<lparr>freelist = (\<lambda>_. 0), memory = (\<lambda>_. 0), lock_trace = []\<rparr>"

text \<open>The same with one free page, on the list of CPU 1.\<close>

definition kmem1 :: kmem where
  "kmem1 = kmem0\<lparr>freelist := (freelist kmem0)(1 := 0x80021000)\<rparr>"

text \<open>The byte of physical memory at an address.\<close>

definition byte_at :: "uint64 \<Rightarrow> kmem \<Rightarrow> uchar" where
  "byte_at a s = memory s a"

section \<open>Buffer cache (kernel/bio.c)\<close>

text \<open>
  Modelled from the spec: \<open>struct buf\<close> is declared in buf.h, which is not among the
  sources. The fields are those bio.c reads and writes, with the types the spec's data
  model and the uses in bio.c give them: \<open>valid\<close> is a C \<open>int\<close> flag; \<open>dev\<close>,
  \<open>blockno\<close>, \<open>refcnt\<close> and \<open>time_stamp\<close> are \<open>uint\<close>; \<open>lock\<close> is the sleep lock
  (sleeplock.c), \<open>None\<close> when free and otherwise the pid of its holder; \<open>next\<close>
  points to a slot of the pool \<open>bcache.buf\<close>, given by its index, or is null (\<open>None\<close>);
  \<open>data\<close> is the block's content.
\<close>

record buf =
  valid :: int
  dev :: uint
  blockno :: uint
  lock :: "nat option"
  refcnt :: uint
  "next" :: "nat option"
  data :: "uchar list"
  time_stamp :: uint

text \<open>
  \<open>bufs\<close> is the array \<open>bcache.buf[NBUF]\<close> and \<open>heads ! i\<close> is
  \<open>bucket[i].head.next\<close>, the only field of a bucket's head that bio.c uses. A pointer
  into the pool is the index of its slot. \<open>NBUF\<close> and \<open>NBUCKET\<close> (param.h) are
  parameters of every operation that depends on them. The spin locks \<open>bcache.lock\<close> and
  \<open>bucket[i].lock\<close> (spinlock.c) are not part of the state: each call below runs
  alone, as one critical section, up to the point where it takes a sleep lock.
\<close>

record bcache =
  bufs :: "buf list"
  heads :: "nat option list"

text \<open>An assignment to fields of the slot \<open>b\<close>.\<close>

definition upd_buf :: "nat \<Rightarrow> (buf \<Rightarrow> buf) \<Rightarrow> bcache \<Rightarrow> bcache" where
  "upd_buf b f s = s\<lparr>bufs := (bufs s)[b := f (bufs s ! b)]\<rparr>"

text \<open>A non-null \<open>struct buf *\<close>: the head of a bucket or a slot of the pool.\<close>

datatype bufptr = Head nat | Slot nat

definition get_next :: "bcache \<Rightarrow> bufptr \<Rightarrow> nat option" where
  "get_next s p = (case p of Head i \<Rightarrow> heads s ! i | Slot b \<Rightarrow> next (bufs s ! b))"

definition set_next :: "bufptr \<Rightarrow> nat option \<Rightarrow> bcache \<Rightarrow> bcache" where
  "set_next p v s =
    (case p of
       Head i \<Rightarrow> s\<lparr>heads := (heads s)[i := v]\<rparr>
     | Slot b \<Rightarrow> upd_buf b (\<lambda>x. x\<lparr>next := v\<rparr>) s)"

text \<open>Static storage starts out zeroed.\<close>

definition zero_buf :: buf where
  "zero_buf = \<lparr>valid = 0, dev = 0, blockno = 0, lock = None, refcnt = 0, next = None,
     data = [], time_stamp = 0\<rparr>"

definition bss :: "nat \<Rightarrow> nat \<Rightarrow> bcache" where
  "bss NBUF NBUCKET = \<lparr>bufs = replicate NBUF zero_buf, heads = replicate NBUCKET None\<rparr>"

definition initsleeplock :: "nat \<Rightarrow> bcache \<Rightarrow> bcache" where
  "initsleeplock b s = upd_buf b (\<lambda>x. x\<lparr>lock := None\<rparr>) s"

text \<open>
  The body of the inner loop of \<open>binit\<close>; the pointer \<open>b\<close> that walks the pool is
  carried along with the state.
\<close>

definition binit_link :: "nat \<Rightarrow> bcache \<times> nat \<Rightarrow> bcache \<times> nat" where
  "binit_link i = (\<lambda>(s, b).
     let s1 = upd_buf b (\<lambda>x. x\<lparr>blockno := of_nat i\<rparr>) s;
         s2 = set_next (Slot b) (heads s1 ! i) s1;
         s3 = s2\<lparr>heads := (heads s2)[i := Some b]\<rparr>
     in (s3, b + 1))"

definition binit :: "nat \<Rightarrow> nat \<Rightarrow> bcache \<Rightarrow> bcache" where
  "binit NBUF NBUCKET s =
    (let s1 = fold initsleeplock [0..<NBUF] s
     in fst (fold (\<lambda>i. fold (\<lambda>j. binit_link i) [0..<NBUF div NBUCKET]) [0..<NBUCKET] (s1, 0)))"

text \<open>The cache as the kernel has it after boot.\<close>

definition boot :: "nat \<Rightarrow> nat \<Rightarrow> bcache" where
  "boot NBUF NBUCKET = binit NBUF NBUCKET (bss NBUF NBUCKET)"

text \<open>
  The first loop of \<open>bget\<close>: is the block already cached? \<open>b\<close> is the loop's
  pointer and \<open>key\<close> the pair \<open>(dev, blockno)\<close> asked for; the result is the slot
  found, or null when the chain ends.
\<close>

partial_function (option) scan_cached :: "bcache \<Rightarrow> uint \<times> uint \<Rightarrow> nat option \<Rightarrow> nat option option" where
  "scan_cached s key b =
    (case b of
       None \<Rightarrow> Some None
     | Some i \<Rightarrow>
         if dev (bufs s ! i) = fst key \<and> blockno (bufs s ! i) = snd key then Some (Some i)
         else scan_cached s key (next (bufs s ! i)))"

text \<open>
  The body shared by the second and the third loop of \<open>bget\<close>:
  \<open>if(b->refcnt == 0 && b->time_stamp < nowmin){ ans = b; nowmin = b->time_stamp; }\<close>,
  on the pair of the variables \<open>(nowmin, ans)\<close>.
\<close>

definition lru_step :: "bcache \<Rightarrow> nat \<Rightarrow> uint \<times> nat option \<Rightarrow> uint \<times> nat option" where
  "lru_step s b = (\<lambda>(nowmin, ans).
     if refcnt (bufs s ! b) = 0 \<and> time_stamp (bufs s ! b) < nowmin
     then (time_stamp (bufs s ! b), Some b) else (nowmin, ans))"

text \<open>The second loop: along the chain of the bucket, \<open>b\<close> being the loop's pointer.\<close>

partial_function (option) scan_lru :: "bcache \<Rightarrow> nat option \<Rightarrow> uint \<times> nat option \<Rightarrow> (uint \<times> nat option) option" where
  "scan_lru s b best =
    (case b of
       None \<Rightarrow> Some best
     | Some i \<Rightarrow> scan_lru s (next (bufs s ! i)) (lru_step s i best))"

text \<open>The third loop: the same search over the whole pool, slot by slot.\<close>

definition scan_pool :: "bcache \<Rightarrow> nat \<Rightarrow> uint \<times> nat option \<Rightarrow> uint \<times> nat option" where
  "scan_pool s NBUF best = fold (lru_step s) [0..<NBUF] best"

text \<open>
  The loop \<open>while(now != ans)\<close> that looks for the predecessor of \<open>ans\<close> on a chain.
  It reads \<open>now->next\<close> and \<open>pre->next\<close>, so it faults when either pointer is null.
  \<open>pn\<close> is the pair of the loop's variables \<open>(pre, now)\<close>; the result is \<open>pre\<close>
  when the loop ends.
\<close>

partial_function (option) find_pre :: "bcache \<Rightarrow> nat \<Rightarrow> bufptr option \<times> nat option \<Rightarrow> bufptr option outcome option" where
  "find_pre s ans pn =
    (case pn of (pre, now) \<Rightarrow>
       if now = Some ans then Some (Returns pre)
       else
         (case now of
            None \<Rightarrow> Some Faults
          | Some n \<Rightarrow>
              (case pre of
                 None \<Rightarrow> Some Faults
               | Some p \<Rightarrow> find_pre s ans (map_option Slot (get_next s p), next (bufs s ! n)))))"

declare scan_cached.simps [code]
declare scan_lru.simps [code]
declare find_pre.simps [code]

text \<open>The four assignments that hand a slot to a new block.\<close>

definition repurpose :: "nat \<Rightarrow> uint \<Rightarrow> uint \<Rightarrow> bcache \<Rightarrow> bcache" where
  "repurpose ans dev' blockno' s =
    upd_buf ans (\<lambda>x. x\<lparr>dev := dev', blockno := blockno', valid := 0, refcnt := 1\<rparr>) s"

text \<open>
  Modelled from the spec: \<open>acquiresleep\<close>, \<open>releasesleep\<close> and \<open>holdingsleep\<close> are
  in sleeplock.c, which is not among the sources. The lock is a blocking lock with one
  holder: taking a free lock makes the calling process \<open>pid\<close> its holder; taking a held
  lock suspends the caller.
\<close>

definition acquiresleep :: "nat \<Rightarrow> nat \<Rightarrow> bcache \<Rightarrow> (nat \<times> bcache) outcome" where
  "acquiresleep pid b s =
    (case lock (bufs s ! b) of
       None \<Rightarrow> Returns (b, upd_buf b (\<lambda>x. x\<lparr>lock := Some pid\<rparr>) s)
     | Some _ \<Rightarrow> Sleeps (b, s))"

definition holdingsleep :: "nat \<Rightarrow> nat \<Rightarrow> bcache \<Rightarrow> bool" where
  "holdingsleep pid b s \<longleftrightarrow> lock (bufs s ! b) = Some pid"

definition releasesleep :: "nat \<Rightarrow> bcache \<Rightarrow> bcache" where
  "releasesleep b s = upd_buf b (\<lambda>x. x\<lparr>lock := None\<rparr>) s"

text \<open>
  The global fallback of \<open>bget\<close>, from \<open>acquire(&bcache.lock)\<close> on. \<open>id'\<close> is the
  requesting bucket and \<open>nowmin\<close> what the scan of that bucket left.
\<close>

definition bget_fallback :: "nat \<Rightarrow> nat \<Rightarrow> nat \<Rightarrow> uint \<Rightarrow> uint \<Rightarrow> nat \<Rightarrow> uint \<Rightarrow> bcache \<Rightarrow> (nat \<times> bcache) outcome" where
  "bget_fallback NBUF NBUCKET pid dev' blockno' id' nowmin s =
    (case snd (scan_pool s NBUF (nowmin, None)) of
       None \<Rightarrow> Panics ''bget: no buffers''
     | Some ans \<Rightarrow>
         let findid = unat (blockno (bufs s ! ans)) mod 13
         in if findid \<ge> NBUCKET then Faults
            else
              case find_pre s ans (Some (Head findid), heads s ! findid) of
                None \<Rightarrow> Diverges
              | Some (Returns (Some pre)) \<Rightarrow>
                  (let s1 = set_next pre (next (bufs s ! ans)) s;
                       s2 = set_next (Slot ans) (heads s1 ! id') s1;
                       s3 = s2\<lparr>heads := (heads s2)[id' := Some ans]\<rparr>
                   in acquiresleep pid ans (repurpose ans dev' blockno' s3))
              | Some _ \<Rightarrow> Faults)"

definition bget :: "nat \<Rightarrow> nat \<Rightarrow> nat \<Rightarrow> uint \<Rightarrow> uint \<Rightarrow> bcache \<Rightarrow> (nat \<times> bcache) outcome" where
  "bget NBUF NBUCKET pid dev' blockno' s =
    (let id' = unat blockno' mod NBUCKET
     in case scan_cached s (dev', blockno') (heads s ! id') of
          None \<Rightarrow> Diverges
        | Some (Some b) \<Rightarrow> acquiresleep pid b (upd_buf b (\<lambda>x. x\<lparr>refcnt := refcnt x + 1\<rparr>) s)
        | Some None \<Rightarrow>
            (case scan_lru s (heads s ! id') (0xFFFFFFFF, None) of
               None \<Rightarrow> Diverges
             | Some (nowmin, Some ans) \<Rightarrow> acquiresleep pid ans (repurpose ans dev' blockno' s)
             | Some (nowmin, None) \<Rightarrow> bget_fallback NBUF NBUCKET pid dev' blockno' id' nowmin s))"

text \<open>
  \<open>bread\<close>. The driver's \<open>virtio_disk_rw(b, 0)\<close> is a parameter: the content it
  reads for the buffer it is given.
\<close>

definition bread :: "(buf \<Rightarrow> uchar list) \<Rightarrow> nat \<Rightarrow> nat \<Rightarrow> nat \<Rightarrow> uint \<Rightarrow> uint \<Rightarrow> bcache \<Rightarrow> (nat \<times> bcache) outcome" where
  "bread virtio_disk_rw NBUF NBUCKET pid dev' blockno' s =
    (case bget NBUF NBUCKET pid dev' blockno' s of
       Returns (b, s1) \<Rightarrow>
         if valid (bufs s1 ! b) = 0
         then Returns (b, upd_buf b (\<lambda>x. x\<lparr>data := virtio_disk_rw x, valid := 1\<rparr>) s1)
         else Returns (b, s1)
     | other \<Rightarrow> other)"

text \<open>\<open>brelse\<close>, called by process \<open>pid\<close> when the tick counter reads \<open>ticks\<close>.\<close>

definition brelse :: "nat \<Rightarrow> uint \<Rightarrow> nat \<Rightarrow> bcache \<Rightarrow> bcache outcome" where
  "brelse pid ticks b s =
    (if \<not> holdingsleep pid b s then Panics ''brelse''
     else
       let s1 = releasesleep b s;
           s2 = upd_buf b (\<lambda>x. x\<lparr>refcnt := refcnt x - 1\<rparr>) s1
       in Returns (if refcnt (bufs s2 ! b) = 0
                   then upd_buf b (\<lambda>x. x\<lparr>time_stamp := ticks\<rparr>) s2
                   else s2))"

definition bpin :: "nat \<Rightarrow> bcache \<Rightarrow> bcache" where
  "bpin b s = upd_buf b (\<lambda>x. x\<lparr>refcnt := refcnt x + 1\<rparr>) s"

definition bunpin :: "nat \<Rightarrow> bcache \<Rightarrow> bcache" where
  "bunpin b s = upd_buf b (\<lambda>x. x\<lparr>refcnt := refcnt x - 1\<rparr>) s"

section \<open>Sequences of calls on the buffer cache\<close>

text \<open>
  One call of the interface of bio.c, with its arguments: the calling process, the
  device and block number of \<open>bget\<close>; the calling process, the tick counter and the
  slot of \<open>brelse\<close>; the slot of \<open>bpin\<close> and \<open>bunpin\<close>. \<open>Resume\<close> is a process that
  \<open>bget\<close> left asleep on the lock of a slot trying that lock again.
\<close>

datatype call =
  Bget nat uint uint
| Brelse nat uint nat
| Bpin nat
| Bunpin nat
| Resume nat nat

fun do_call :: "nat \<Rightarrow> nat \<Rightarrow> call \<Rightarrow> bcache \<Rightarrow> bcache outcome" where
  "do_call NBUF NBUCKET (Bget pid dev' blockno') s = map_outcome snd (bget NBUF NBUCKET pid dev' blockno' s)"
| "do_call NBUF NBUCKET (Brelse pid ticks b) s = brelse pid ticks b s"
| "do_call NBUF NBUCKET (Bpin b) s = Returns (bpin b s)"
| "do_call NBUF NBUCKET (Bunpin b) s = Returns (bunpin b s)"
| "do_call NBUF NBUCKET (Resume pid b) s = map_outcome snd (acquiresleep pid b s)"

text \<open>
  A sequence of calls, one after the other. A caller that sleeps leaves the state as its
  critical section made it, and the next call runs on that state. A panic or a fault
  stops the kernel.
\<close>

fun run :: "nat \<Rightarrow> nat \<Rightarrow> call list \<Rightarrow> bcache \<Rightarrow> bcache outcome" where
  "run NBUF NBUCKET [] s = Returns s"
| "run NBUF NBUCKET (c # cs) s =
    (case do_call NBUF NBUCKET c s of
       Returns s' \<Rightarrow> run NBUF NBUCKET cs s'
     | Sleeps s' \<Rightarrow> run NBUF NBUCKET cs s'
     | other \<Rightarrow> other)"



text \<open>The cache key of a descriptor, and the descriptor a call returned.\<close>

definition key :: "buf \<Rightarrow> uint \<times> uint" where
  "key x = (dev x, blockno x)"

definition returned_buf :: "nat \<times> bcache \<Rightarrow> buf" where
  "returned_buf r = bufs (snd r) ! fst r"


section \<open>Chains as lists\<close>

text \<open>
  \<open>chain s p xs\<close>: following \<open>next\<close> from the pointer \<open>p\<close> visits exactly the slots
  \<open>xs\<close>, in this order, and then reaches the null pointer.
\<close>

primrec chain :: "bcache \<Rightarrow> nat option \<Rightarrow> nat list \<Rightarrow> bool" where
  "chain s p [] \<longleftrightarrow> p = None"
| "chain s p (x # xs) \<longleftrightarrow> p = Some x \<and> chain s (next (bufs s ! x)) xs"

text \<open>
  The shape of the cache: the pool and the bucket array have their sizes, bucket \<open>i\<close>
  has the chain \<open>cs i\<close>, the chains hold slots of the pool, and no slot is on two
  chains. (No slot is twice on one chain: a chain ends.)
\<close>

definition chains_ok :: "nat \<Rightarrow> nat \<Rightarrow> bcache \<Rightarrow> (nat \<Rightarrow> nat list) \<Rightarrow> bool" where
  "chains_ok NBUF NBUCKET s cs \<longleftrightarrow>
     length (bufs s) = NBUF \<and> length (heads s) = NBUCKET
     \<and> (\<forall>i<NBUCKET. chain s (heads s ! i) (cs i) \<and> (\<forall>b\<in>set (cs i). b < NBUF))
     \<and> (\<forall>i<NBUCKET. \<forall>j<NBUCKET. i \<noteq> j \<longrightarrow> set (cs i) \<inter> set (cs j) = {})"

text \<open>
  In a chain, a referenced slot is the first one with its key: no slot before it on
  the chain has the same key.
\<close>

fun first_wins :: "bcache \<Rightarrow> nat list \<Rightarrow> bool" where
  "first_wins s [] = True"
| "first_wins s (x # xs) =
    ((\<forall>y\<in>set xs. refcnt (bufs s ! y) \<noteq> 0 \<longrightarrow> key (bufs s ! y) \<noteq> key (bufs s ! x))
     \<and> first_wins s xs)"

text \<open>
  What the lookups rely on: a slot on the chain of bucket \<open>i\<close> has a block number that
  hashes to \<open>i\<close>, a slot on no chain is not referenced, and \<open>first_wins\<close> holds on
  every chain.
\<close>

definition keys_ok :: "nat \<Rightarrow> nat \<Rightarrow> bcache \<Rightarrow> (nat \<Rightarrow> nat list) \<Rightarrow> bool" where
  "keys_ok NBUF NBUCKET s cs \<longleftrightarrow>
     (\<forall>i<NBUCKET. \<forall>b\<in>set (cs i). unat (blockno (bufs s ! b)) mod NBUCKET = i)
     \<and> (\<forall>b<NBUF. (\<forall>i<NBUCKET. b \<notin> set (cs i)) \<longrightarrow> refcnt (bufs s ! b) = 0)
     \<and> (\<forall>i<NBUCKET. first_wins s (cs i))"

definition cache_inv :: "nat \<Rightarrow> nat \<Rightarrow> bcache \<Rightarrow> bool" where
  "cache_inv NBUF NBUCKET s \<longleftrightarrow> (\<exists>cs. chains_ok NBUF NBUCKET s cs \<and> keys_ok NBUF NBUCKET s cs)"

text \<open>
  The state of the loops of \<open>binit\<close> when the pointer \<open>b\<close> has passed the slots
  below it: these are the slots on chains, each with the number of its bucket as block
  number, and nothing is referenced.
\<close>

definition binit_inv :: "nat \<Rightarrow> nat \<Rightarrow> bcache \<Rightarrow> nat \<Rightarrow> (nat \<Rightarrow> nat list) \<Rightarrow> bool" where
  "binit_inv NBUF NBUCKET s b cs \<longleftrightarrow>
     chains_ok NBUF NBUCKET s cs \<and> b \<le> NBUF
     \<and> (\<forall>i<NBUCKET. \<forall>x\<in>set (cs i). x < b \<and> blockno (bufs s ! x) = of_nat i)
     \<and> (\<forall>x<NBUF. refcnt (bufs s ! x) = 0)"

section \<open>Properties of the page allocator\<close>

lemma of_nat_inj64: "k < 4096 \<Longrightarrow> j < 4096 \<Longrightarrow> (of_nat k :: uint64) = of_nat j \<longleftrightarrow> k = j"
proof -
  assume a: "k < 4096" "j < 4096"
  have "take_bit 64 k = k" "take_bit 64 j = j"
    using a by (simp_all add: take_bit_nat_eq_self)
  then show ?thesis by (simp add: word_of_nat_eq_iff)
qed

lemma fold_upd_miss:
  "\<forall>k<n. x \<noteq> r + of_nat k \<Longrightarrow> fold (\<lambda>k m'. m'(r + of_nat k := f k)) [0..<n] m x = m x"
  by (induction n) simp_all

lemma fold_upd_hit:
  "n \<le> 4096 \<Longrightarrow> k < n \<Longrightarrow>
   fold (\<lambda>k m'. m'((r::uint64) + of_nat k := f k)) [0..<n] m (r + of_nat k) = f k"
proof (induction n)
  case 0
  then show ?case by simp
next
  case (Suc n)
  show ?case
  proof (cases "k = n")
    case True
    then show ?thesis by simp
  next
    case False
    with Suc.prems have "k < n" "k < 4096" "n < 4096" by simp_all
    moreover from this have "(of_nat k :: uint64) \<noteq> of_nat n"
      using False by (simp add: of_nat_inj64)
    ultimately show ?thesis using Suc.IH by simp
  qed
qed

lemma store_next_hit: "k < 8 \<Longrightarrow> store_next m r v (r + of_nat k) = ucast (drop_bit (8 * k) v)"
  unfolding store_next_def by (rule fold_upd_hit) simp_all

lemma store_next_miss: "\<forall>k<8. x \<noteq> r + of_nat k \<Longrightarrow> store_next m r v x = m x"
  unfolding store_next_def by (rule fold_upd_miss)

lemma memset_hit: "n \<le> 4096 \<Longrightarrow> k < n \<Longrightarrow> memset m dst c n (dst + of_nat k) = c"
  unfolding memset_def by (rule fold_upd_hit)

lemma memset_miss: "\<forall>k<n. x \<noteq> dst + of_nat k \<Longrightarrow> memset m dst c n x = m x"
  unfolding memset_def by (rule fold_upd_miss)

lemma byte_k: "bit (push_bit (8 * k) (ucast (ucast (drop_bit (8 * k) (v::64 word)) :: 8 word) :: 64 word)) n
   \<longleftrightarrow> 8 * k \<le> n \<and> n < 8 * k + 8 \<and> bit v n"
  by (auto simp add: bit_simps dest: bit_imp_le_length)

lemma bytes_rejoin:
  "fold (\<lambda>k w. w OR push_bit (8 * k) (ucast (ucast (drop_bit (8 * k) v) :: 8 word))) [0,1,2,3,4,5,6,7] (0::64 word) = v"
proof (rule bit_word_eqI)
  fix n :: nat
  assume "n < LENGTH(64)"
  then have n: "n < 64" by simp
  have "bit (fold (\<lambda>k w. w OR push_bit (8 * k) (ucast (ucast (drop_bit (8 * k) v) :: 8 word))) [0,1,2,3,4,5,6,7] (0::64 word)) n
     \<longleftrightarrow> (\<exists>k\<in>{0,1,2,3,4,5,6,7}. 8 * k \<le> n \<and> n < 8 * k + 8 \<and> bit v n)"
    unfolding fold_simps o_apply bit_or_iff byte_k by simp
  also have "\<dots> \<longleftrightarrow> bit v n"
  proof (cases "bit v n")
    case False
    then show ?thesis by simp
  next
    case True
    from n have "n < 8 \<or> 8 \<le> n \<and> n < 16 \<or> 16 \<le> n \<and> n < 24 \<or> 24 \<le> n \<and> n < 32
        \<or> 32 \<le> n \<and> n < 40 \<or> 40 \<le> n \<and> n < 48 \<or> 48 \<le> n \<and> n < 56 \<or> 56 \<le> n \<and> n < 64"
      by linarith
    with True show ?thesis by simp
  qed
  finally show "bit (fold (\<lambda>k w. w OR push_bit (8 * k) (ucast (ucast (drop_bit (8 * k) v) :: 8 word))) [0,1,2,3,4,5,6,7] (0::64 word)) n = bit v n" .
qed

lemma load_next_bytes:
  "load_next m r = fold (\<lambda>k v. v OR push_bit (8 * k) (ucast (m (r + of_nat k)))) [0,1,2,3,4,5,6,7] 0"
  unfolding load_next_def by (simp add: upt_conv_Cons)

lemma load_store_next: "load_next (store_next m r v) r = v"
proof -
  have b: "\<And>k. k < 8 \<Longrightarrow> store_next m r v (r + of_nat k) = ucast (drop_bit (8 * k) v)"
    by (rule store_next_hit)
  have "load_next (store_next m r v) r =
    fold (\<lambda>k w. w OR push_bit (8 * k) (ucast (ucast (drop_bit (8 * k) v) :: uchar))) [0,1,2,3,4,5,6,7] 0"
    unfolding load_next_bytes using b[of 0] b[of 1] b[of 2] b[of 3] b[of 4] b[of 5] b[of 6] b[of 7]
    by simp
  then show ?thesis by (simp only: bytes_rejoin)
qed

lemma kfree_Returns:
  "unat pa mod PGSIZE = 0 \<Longrightarrow> end \<le> pa \<Longrightarrow> pa < PHYSTOP \<Longrightarrow>
   kfree end PHYSTOP id' pa s =
     Returns \<lparr>freelist = (freelist s)(id' := pa),
              memory = store_next (memset (memory s) pa 1 PGSIZE) pa (freelist s id'),
              lock_trace = lock_trace s @ [Acquire id', Release id']\<rparr>"
  by (simp add: kfree_def acquire_def release_def Let_def not_less [symmetric])

text \<open>
  C8. \<open>kfree\<close> panics if and only if the address is not a multiple of the page size,
  or lies below \<open>end\<close>, or at or above \<open>PHYSTOP\<close>. For every other address it returns,
  the page is the new head of the executing CPU's free list, and the link stored in the
  page is the old head of that list.
\<close>

theorem kfree_checks_then_pushes:
  "(kfree end PHYSTOP id' pa s = Panics ''kfree''
      \<longleftrightarrow> unat pa mod PGSIZE \<noteq> 0 \<or> pa < end \<or> PHYSTOP \<le> pa)
   \<and> (unat pa mod PGSIZE = 0 \<and> end \<le> pa \<and> pa < PHYSTOP \<longrightarrow>
        map_outcome freelist (kfree end PHYSTOP id' pa s) = Returns ((freelist s)(id' := pa))
        \<and> map_outcome (\<lambda>s'. load_next (memory s') pa) (kfree end PHYSTOP id' pa s)
            = Returns (freelist s id'))"
proof (intro conjI impI)
  show "kfree end PHYSTOP id' pa s = Panics ''kfree''
      \<longleftrightarrow> unat pa mod PGSIZE \<noteq> 0 \<or> pa < end \<or> PHYSTOP \<le> pa"
    by (simp add: kfree_def Let_def)
next
  assume "unat pa mod PGSIZE = 0 \<and> end \<le> pa \<and> pa < PHYSTOP"
  then have r: "kfree end PHYSTOP id' pa s =
     Returns \<lparr>freelist = (freelist s)(id' := pa),
              memory = store_next (memset (memory s) pa 1 PGSIZE) pa (freelist s id'),
              lock_trace = lock_trace s @ [Acquire id', Release id']\<rparr>"
    by (simp add: kfree_Returns)
  show "map_outcome freelist (kfree end PHYSTOP id' pa s) = Returns ((freelist s)(id' := pa))"
    by (simp add: r)
  show "map_outcome (\<lambda>s'. load_next (memory s') pa) (kfree end PHYSTOP id' pa s)
            = Returns (freelist s id')"
    by (simp add: r load_store_next)
qed

theorem kfree_checks_then_pushes_witness:
  "unat (0x80021000 :: uint64) mod PGSIZE = 0
   \<and> kfree 0x80021000 0x88000000 0 0x80021000 kmem0 \<noteq> Panics ''kfree''
   \<and> map_outcome freelist (kfree 0x80021000 0x88000000 0 0x80021000 kmem0)
       = Returns ((freelist kmem0)(0 := 0x80021000))
   \<and> kfree 0x80021000 0x88000000 0 0x80021001 kmem0 = Panics ''kfree''"
  using kfree_checks_then_pushes [of "0x80021000" "0x88000000" 0 "0x80021000" kmem0]
    kfree_checks_then_pushes [of "0x80021000" "0x88000000" 0 "0x80021001" kmem0]
  by (simp add: PGSIZE_def)


lemma take_page_fields:
  "freelist (take_page i r s) = (freelist s)(i := load_next (memory s) r)"
  "memory (take_page i r s) = memset (memory s) r 5 PGSIZE"
  "lock_trace (take_page i r s) = lock_trace s @ [Release i]"
  by (simp_all add: take_page_def release_def Let_def)

lemma steal_peers: "steal id' cpus r s = steal id' (filter (\<lambda>i. i \<noteq> id') cpus) r s"
  by (induction cpus arbitrary: r s) (auto simp: Let_def)

lemma steal_none:
  "\<forall>i\<in>set cpus. i \<noteq> id' \<and> freelist s i = 0 \<Longrightarrow>
   steal id' cpus 0 s = (0, s\<lparr>lock_trace := lock_trace s @ concat (map visit cpus)\<rparr>)"
proof (induction cpus arbitrary: s)
  case Nil
  then show ?case by simp
next
  case (Cons i cpus)
  let ?s = "release i (acquire i s)"
  from Cons.prems have "\<forall>j\<in>set cpus. j \<noteq> id' \<and> freelist ?s j = 0"
    by (simp add: acquire_def release_def)
  from Cons.IH [OF this] Cons.prems show ?case
    by (simp add: acquire_def release_def visit_def Let_def)
qed

lemma steal_some:
  "\<forall>j\<in>set cpus. j \<noteq> id' \<Longrightarrow> find (\<lambda>j. freelist s j \<noteq> 0) cpus = Some i \<Longrightarrow>
   steal id' cpus 0 s =
     (freelist s i,
      take_page i (freelist s i)
        (s\<lparr>lock_trace := lock_trace s
               @ concat (map visit (takeWhile (\<lambda>j. freelist s j = 0) cpus)) @ [Acquire i]\<rparr>))"
proof (induction cpus arbitrary: s)
  case Nil
  then show ?case by simp
next
  case (Cons c cpus)
  show ?case
  proof (cases "freelist s c = 0")
    case False
    with Cons.prems show ?thesis
      by (simp add: acquire_def Let_def)
  next
    case True
    let ?s = "release c (acquire c s)"
    have f: "freelist ?s = freelist s"
      by (simp add: acquire_def release_def)
    from Cons.prems True have "\<forall>j\<in>set cpus. j \<noteq> id'" "find (\<lambda>j. freelist ?s j \<noteq> 0) cpus = Some i"
      by (simp_all add: f)
    from Cons.IH [OF this] Cons.prems True show ?thesis
      by (simp add: f Let_def) (simp add: acquire_def release_def visit_def)
  qed
qed

lemma one_at_a_time_visits: "one_at_a_time None (concat (map visit cpus) @ es) = one_at_a_time None es"
  by (induction cpus) (simp_all add: visit_def)

lemma kalloc_cases:
  "(case kalloc NCPU id' s of (r, s') \<Rightarrow>
     (freelist s id' \<noteq> 0 \<longrightarrow>
        r = freelist s id' \<and> freelist s' = (freelist s)(id' := load_next (memory s) r)
        \<and> lock_trace s' = lock_trace s @ visit id')
     \<and> (freelist s id' = 0 \<longrightarrow>
        (case find (\<lambda>i. freelist s i \<noteq> 0) (peers NCPU id') of
           None \<Rightarrow>
             r = 0 \<and> freelist s' = freelist s \<and> memory s' = memory s
             \<and> lock_trace s' = lock_trace s @ concat (map visit (id' # peers NCPU id'))
         | Some i \<Rightarrow>
             r = freelist s i \<and> freelist s' = (freelist s)(i := load_next (memory s) r)
             \<and> lock_trace s' = lock_trace s
                 @ concat (map visit (id' # takeWhile (\<lambda>j. freelist s j = 0) (peers NCPU id') @ [i]))))
     \<and> one_at_a_time None (drop (length (lock_trace s)) (lock_trace s')))"
proof (cases "freelist s id' = 0")
  case False
  then show ?thesis
    by (simp add: kalloc_def acquire_def take_page_fields visit_def Let_def)
next
  case True
  let ?s = "release id' (acquire id' s)"
  have f: "freelist ?s = freelist s" "memory ?s = memory s"
     "lock_trace ?s = lock_trace s @ visit id'"
    by (simp_all add: acquire_def release_def visit_def)
  have k: "kalloc NCPU id' s = steal id' (peers NCPU id') 0 ?s"
    using True by (simp add: kalloc_def Let_def acquire_def peers_def steal_peers [of id' "[0..<NCPU]"])
  have p: "\<forall>j\<in>set (peers NCPU id'). j \<noteq> id'"
    by (simp add: peers_def)
  show ?thesis
  proof (cases "find (\<lambda>i. freelist s i \<noteq> 0) (peers NCPU id')")
    case None
    then have "\<forall>i\<in>set (peers NCPU id'). i \<noteq> id' \<and> freelist ?s i = 0"
      using p by (simp add: f find_None_iff)
    from steal_none [OF this] True None show ?thesis
      by (simp add: k f one_at_a_time_visits [of _ "[]", simplified] visit_def)
  next
    case (Some i)
    then have "find (\<lambda>j. freelist ?s j \<noteq> 0) (peers NCPU id') = Some i"
      by (simp add: f)
    from steal_some [OF p this] True Some show ?thesis
      by (simp add: k f take_page_fields one_at_a_time_visits visit_def)
  qed
qed


text \<open>
  C7. \<open>kalloc\<close> first looks at the list of the CPU it runs on and, when that list is
  not empty, pops its first page and visits no other list. If and only if the own list
  is empty it visits the other CPUs' lists in ascending order and takes the first page
  of the first list that is not empty; when every list is empty it returns the null
  pointer, with lists and memory as they were. \<open>kalloc\<close> has no \<open>panic\<close>: its model is
  a total function. Each list is visited by one \<open>acquire\<close> followed by its \<open>release\<close>,
  so at most one allocator lock is held at a time.
\<close>

theorem kalloc_local_then_steal:
  "(case kalloc NCPU id' s of (r, s') \<Rightarrow>
     (freelist s id' \<noteq> 0 \<longrightarrow>
        r = freelist s id' \<and> freelist s' = (freelist s)(id' := load_next (memory s) r)
        \<and> lock_trace s' = lock_trace s @ visit id')
     \<and> (freelist s id' = 0 \<longrightarrow>
        (case find (\<lambda>i. freelist s i \<noteq> 0) (peers NCPU id') of
           None \<Rightarrow>
             r = 0 \<and> freelist s' = freelist s \<and> memory s' = memory s
             \<and> lock_trace s' = lock_trace s @ concat (map visit (id' # peers NCPU id'))
         | Some i \<Rightarrow>
             r = freelist s i \<and> freelist s' = (freelist s)(i := load_next (memory s) r)
             \<and> lock_trace s' = lock_trace s
                 @ concat (map visit (id' # takeWhile (\<lambda>j. freelist s j = 0) (peers NCPU id') @ [i]))))
     \<and> one_at_a_time None (drop (length (lock_trace s)) (lock_trace s')))"
  by (rule kalloc_cases)

theorem kalloc_local_then_steal_witness:
  "fst (kalloc 3 0 kmem1) = 0x80021000
   \<and> lock_trace (snd (kalloc 3 0 kmem1)) = [Acquire 0, Release 0, Acquire 1, Release 1]
   \<and> fst (kalloc 3 1 kmem1) = 0x80021000
   \<and> lock_trace (snd (kalloc 3 1 kmem1)) = [Acquire 1, Release 1]
   \<and> fst (kalloc 3 0 kmem0) = 0
   \<and> lock_trace (snd (kalloc 3 0 kmem0)) = [Acquire 0, Release 0, Acquire 1, Release 1, Acquire 2, Release 2]"
  using kalloc_local_then_steal [where NCPU = 3 and id' = 0 and s = kmem1]
    kalloc_local_then_steal [where NCPU = 3 and id' = 1 and s = kmem1]
    kalloc_local_then_steal [where NCPU = 3 and id' = 0 and s = kmem0]
  by (simp add: kmem1_def kmem0_def peers_def visit_def upt_conv_Cons split: prod.splits)

lemma kalloc_memory:
  "(case kalloc NCPU id' s of (r, s') \<Rightarrow>
      memory s' = (if r = 0 then memory s else memset (memory s) r 5 PGSIZE))"
proof (cases "freelist s id' = 0")
  case False
  then show ?thesis
    by (simp add: kalloc_def acquire_def take_page_fields Let_def)
next
  case True
  let ?s = "release id' (acquire id' s)"
  have f: "freelist ?s = freelist s" "memory ?s = memory s"
    by (simp_all add: acquire_def release_def)
  have k: "kalloc NCPU id' s = steal id' (peers NCPU id') 0 ?s"
    using True by (simp add: kalloc_def Let_def acquire_def peers_def steal_peers [of id' "[0..<NCPU]"])
  have p: "\<forall>j\<in>set (peers NCPU id'). j \<noteq> id'"
    by (simp add: peers_def)
  show ?thesis
  proof (cases "find (\<lambda>i. freelist s i \<noteq> 0) (peers NCPU id')")
    case None
    then have "\<forall>i\<in>set (peers NCPU id'). i \<noteq> id' \<and> freelist ?s i = 0"
      using p by (simp add: f find_None_iff)
    from steal_none [OF this] show ?thesis
      by (simp add: k f)
  next
    case (Some i)
    then have nz: "freelist s i \<noteq> 0"
      by (auto simp: find_Some_iff)
    from Some have "find (\<lambda>j. freelist ?s j \<noteq> 0) (peers NCPU id') = Some i"
      by (simp add: f)
    from steal_some [OF p this] nz show ?thesis
      by (simp add: k f take_page_fields)
  qed
qed

text \<open>
  C2, as amended. When \<open>kalloc\<close> returns a page, every byte of it is 5. When \<open>kfree\<close>
  returns, the bytes of the page from offset 8 on are 1, and the first eight bytes hold
  the link to the previous head of the executing CPU's free list.
\<close>

theorem sentinel_after_kalloc_and_kfree:
  "(case kalloc NCPU id' s of (r, s') \<Rightarrow>
      r \<noteq> 0 \<longrightarrow> (\<forall>k<PGSIZE. byte_at (r + of_nat k) s' = 5))
   \<and> (unat pa mod PGSIZE = 0 \<and> end \<le> pa \<and> pa < PHYSTOP \<longrightarrow>
        (\<forall>k<PGSIZE. 8 \<le> k \<longrightarrow>
           map_outcome (byte_at (pa + of_nat k)) (kfree end PHYSTOP id' pa s) = Returns 1)
        \<and> (\<forall>k<8. map_outcome (byte_at (pa + of_nat k)) (kfree end PHYSTOP id' pa s)
                   = Returns (ucast (drop_bit (8 * k) (freelist s id'))))
        \<and> map_outcome (\<lambda>s'. load_next (memory s') pa) (kfree end PHYSTOP id' pa s)
            = Returns (freelist s id'))"
proof (intro conjI impI allI)
  show "case kalloc NCPU id' s of (r, s') \<Rightarrow>
      r \<noteq> 0 \<longrightarrow> (\<forall>k<PGSIZE. byte_at (r + of_nat k) s' = 5)"
    using kalloc_memory [where NCPU = NCPU and id' = id' and s = s]
    by (auto simp: byte_at_def PGSIZE_def memset_hit split: prod.splits)
next
  assume pre: "unat pa mod PGSIZE = 0 \<and> end \<le> pa \<and> pa < PHYSTOP"
  then have r: "kfree end PHYSTOP id' pa s =
     Returns \<lparr>freelist = (freelist s)(id' := pa),
              memory = store_next (memset (memory s) pa 1 PGSIZE) pa (freelist s id'),
              lock_trace = lock_trace s @ [Acquire id', Release id']\<rparr>"
    by (simp add: kfree_Returns)
  show "map_outcome (\<lambda>s'. load_next (memory s') pa) (kfree end PHYSTOP id' pa s)
            = Returns (freelist s id')"
    by (simp add: r load_store_next)
  {
    fix k :: nat
    assume k: "k < 8"
    then show "map_outcome (byte_at (pa + of_nat k)) (kfree end PHYSTOP id' pa s)
                   = Returns (ucast (drop_bit (8 * k) (freelist s id')))"
      by (simp add: r byte_at_def store_next_hit)
  }
  {
    fix k :: nat
    assume k: "k < PGSIZE" "8 \<le> k"
    then have "\<forall>j<8. pa + of_nat k \<noteq> pa + of_nat j"
      by (auto simp: PGSIZE_def of_nat_inj64)
    then have "store_next (memset (memory s) pa 1 PGSIZE) pa (freelist s id') (pa + of_nat k)
        = memset (memory s) pa 1 PGSIZE (pa + of_nat k)"
      by (rule store_next_miss)
    with k show "map_outcome (byte_at (pa + of_nat k)) (kfree end PHYSTOP id' pa s) = Returns 1"
      by (simp add: r byte_at_def memset_hit PGSIZE_def)
  }
qed

theorem sentinel_after_kalloc_and_kfree_witness:
  "byte_at 0x80021000 (snd (kalloc 3 0 kmem1)) = 5
   \<and> byte_at (0x80021000 + 4095) (snd (kalloc 3 0 kmem1)) = 5
   \<and> map_outcome (byte_at (0x80021000 + 8)) (kfree 0x80021000 0x88000000 0 0x80021000 kmem1)
        = Returns 1
   \<and> map_outcome (byte_at (0x80021000 + 4095)) (kfree 0x80021000 0x88000000 0 0x80021000 kmem1)
        = Returns 1
   \<and> map_outcome (\<lambda>s'. load_next (memory s') 0x80021000) (kfree 0x80021000 0x88000000 0 0x80021000 kmem1)
        = Returns 0"
proof -
  have "fst (kalloc 3 0 kmem1) = 0x80021000"
    using kalloc_cases [where NCPU = 3 and id' = 0 and s = kmem1]
    by (simp add: kmem1_def kmem0_def peers_def upt_conv_Cons split: prod.splits)
  moreover have "freelist kmem1 0 = 0"
    by (simp add: kmem1_def kmem0_def)
  moreover have "unat (0x80021000 :: uint64) mod PGSIZE = 0"
    by (simp add: PGSIZE_def)
  moreover note sentinel_after_kalloc_and_kfree [where NCPU = 3 and id' = 0 and s = kmem1
      and pa = "0x80021000" and ?end = "0x80021000" and PHYSTOP = "0x88000000"]
  ultimately have
    a: "\<forall>k<PGSIZE. byte_at (0x80021000 + of_nat k) (snd (kalloc 3 0 kmem1)) = 5"
    and f: "\<forall>k<PGSIZE. 8 \<le> k \<longrightarrow>
        map_outcome (byte_at (0x80021000 + of_nat k)) (kfree 0x80021000 0x88000000 0 0x80021000 kmem1)
          = Returns 1"
    and l: "map_outcome (\<lambda>s'. load_next (memory s') 0x80021000)
          (kfree 0x80021000 0x88000000 0 0x80021000 kmem1) = Returns 0"
    by (simp_all split: prod.splits)
  from a [rule_format, of 0] a [rule_format, of 4095] f [rule_format, of 8] f [rule_format, of 4095] l
  show ?thesis
    by (simp add: PGSIZE_def)
qed

text \<open>
  C2, as stated, fails: after \<open>kfree\<close> of a page onto an empty list the first byte of
  the page is 0, the low byte of the null link, not the free pattern 1.
\<close>

theorem kfree_first_byte_counterexample:
  "map_outcome (byte_at 0x80021000) (kfree 0x80021000 0x88000000 0 0x80021000 kmem0) = Returns 0"
proof -
  have "kfree 0x80021000 0x88000000 0 0x80021000 kmem0 =
     Returns \<lparr>freelist = (freelist kmem0)(0 := 0x80021000),
              memory = store_next (memset (memory kmem0) 0x80021000 1 PGSIZE) 0x80021000 (freelist kmem0 0),
              lock_trace = lock_trace kmem0 @ [Acquire 0, Release 0]\<rparr>"
    by (rule kfree_Returns) (simp_all add: PGSIZE_def)
  then show ?thesis
    using store_next_hit [of 0 "memset (memory kmem0) 0x80021000 1 PGSIZE" "0x80021000" "freelist kmem0 0"]
    by (simp add: byte_at_def kmem0_def)
qed


section \<open>Properties of the buffer cache\<close>

subsection \<open>Field updates\<close>

lemma bufs_upd_buf:
  "bufs (upd_buf b f s) ! x = (if x = b \<and> b < length (bufs s) then f (bufs s ! b) else bufs s ! x)"
  by (cases "b < length (bufs s)") (simp_all add: upd_buf_def nth_list_update list_update_beyond)

lemma upd_buf_other [simp]:
  "heads (upd_buf b f s) = heads s"
  "length (bufs (upd_buf b f s)) = length (bufs s)"
  by (simp_all add: upd_buf_def)

lemma set_next_fields:
  "length (bufs (set_next p v s)) = length (bufs s)"
  "length (heads (set_next p v s)) = length (heads s)"
  by (simp_all add: set_next_def split: bufptr.splits)

subsection \<open>Chains\<close>

lemma chain_heads_irrelevant [simp]: "chain (s\<lparr>heads := h\<rparr>) p xs = chain s p xs"
  by (induction xs arbitrary: p) simp_all

lemma chain_upd_keeps_next:
  "(\<And>x. next (f x) = next x) \<Longrightarrow> chain (upd_buf b f s) p xs = chain s p xs"
  by (induction xs arbitrary: p) (simp_all add: bufs_upd_buf)

lemma chain_upd_notin:
  "b \<notin> set xs \<Longrightarrow> chain (upd_buf b f s) p xs = chain s p xs"
  by (induction xs arbitrary: p) (auto simp: bufs_upd_buf)

lemma chain_unique: "chain s p xs \<Longrightarrow> chain s p ys \<Longrightarrow> xs = ys"
proof (induction xs arbitrary: p ys)
  case Nil
  then show ?case by (cases ys) simp_all
next
  case (Cons x xs)
  then show ?case by (cases ys) auto
qed

lemma chain_suffix: "chain s p (xs @ ys) \<Longrightarrow> \<exists>q. chain s q ys"
  by (induction xs arbitrary: p) auto

lemma chain_after: "chain s p (ys @ x # zs) \<Longrightarrow> chain s (next (bufs s ! x)) zs"
  by (induction ys arbitrary: p) auto

lemma chain_head_notin_tail:
  assumes tail: "chain s (next (bufs s ! x)) xs"
  shows "x \<notin> set xs"
proof (rule notI)
  assume mem: "x \<in> set xs"
  from split_list [OF mem] obtain us vs where cut: "xs = us @ x # vs"
    by blast
  from tail have "chain s (next (bufs s ! x)) vs"
    unfolding cut by (rule chain_after)
  with tail have "xs = vs"
    by (rule chain_unique)
  with cut show False by simp
qed

lemma chain_distinct: "chain s p xs \<Longrightarrow> distinct xs"
  by (induction xs arbitrary: p) (auto dest: chain_head_notin_tail)

text \<open>Unlinking the slot \<open>a\<close>: its predecessor takes over its \<open>next\<close>.\<close>

lemma chain_unlink_inner:
  assumes "chain s p (ys @ a # zs)" and "ys \<noteq> []" and "last ys < length (bufs s)"
  shows "chain (upd_buf (last ys) (\<lambda>x. x\<lparr>next := next (bufs s ! a)\<rparr>) s) p (ys @ zs)"
  using assms
proof (induction ys arbitrary: p)
  case Nil
  then show ?case by simp
next
  case (Cons y ys)
  from Cons.prems(1) have d: "distinct ((y # ys) @ a # zs)"
    by (rule chain_distinct)
  show ?case
  proof (cases "ys = []")
    case True
    with Cons.prems d show ?thesis
      by (simp add: bufs_upd_buf chain_upd_notin)
  next
    case False
    with d have "last ys \<noteq> y"
      by auto
    with Cons False show ?thesis
      by (simp add: bufs_upd_buf)
  qed
qed


subsection \<open>The loops of bget on a chain\<close>

lemma scan_cached_chain:
  "chain s p xs \<Longrightarrow> scan_cached s k p = Some (find (\<lambda>i. key (bufs s ! i) = k) xs)"
proof (induction xs arbitrary: p)
  case Nil
  then show ?case by (subst scan_cached.simps) simp
next
  case (Cons x xs)
  then show ?case
    by (subst scan_cached.simps) (auto simp: key_def prod_eq_iff)
qed

lemma scan_lru_chain:
  "chain s p xs \<Longrightarrow> scan_lru s p best = Some (fold (lru_step s) xs best)"
proof (induction xs arbitrary: p best)
  case Nil
  then show ?case by (subst scan_lru.simps) simp
next
  case (Cons x xs)
  then show ?case
    by (subst scan_lru.simps) simp
qed

lemma find_pre_chain:
  "chain s now xs \<Longrightarrow> get_next s pre = now \<Longrightarrow>
   find_pre s a (Some pre, now) =
     Some (if a \<in> set xs then Returns (Some (last (pre # map Slot (takeWhile (\<lambda>x. x \<noteq> a) xs))))
           else Faults)"
proof (induction xs arbitrary: pre now)
  case Nil
  then show ?case by (subst find_pre.simps) simp
next
  case (Cons x xs)
  show ?case
  proof (cases "x = a")
    case True
    with Cons.prems show ?thesis by (subst find_pre.simps) simp
  next
    case False
    from Cons.prems have "chain s (next (bufs s ! x)) xs" "get_next s (Slot x) = next (bufs s ! x)"
      by (simp_all add: get_next_def)
    from Cons.IH [OF this] False Cons.prems show ?thesis
      by (subst find_pre.simps) auto
  qed
qed

lemma lru_step_apply:
  "lru_step s b (m, a) =
    (if refcnt (bufs s ! b) = 0 \<and> time_stamp (bufs s ! b) < m
     then (time_stamp (bufs s ! b), Some b) else (m, a))"
  by (simp add: lru_step_def)

lemma fold_lru_cases:
  "fold (lru_step s) xs (m, a) = (m', a') \<Longrightarrow>
     (a' = a \<and> m' = m \<and> (\<forall>x\<in>set xs. \<not> (refcnt (bufs s ! x) = 0 \<and> time_stamp (bufs s ! x) < m)))
   \<or> (\<exists>x\<in>set xs. a' = Some x \<and> refcnt (bufs s ! x) = 0 \<and> time_stamp (bufs s ! x) = m' \<and> m' < m
        \<and> (\<forall>y\<in>set xs. refcnt (bufs s ! y) = 0 \<longrightarrow> m' \<le> time_stamp (bufs s ! y)))"
proof (induction xs arbitrary: m a)
  case Nil
  then show ?case by simp
next
  case (Cons x xs)
  show ?case
  proof (cases "refcnt (bufs s ! x) = 0 \<and> time_stamp (bufs s ! x) < m")
    case True
    with Cons.prems have "fold (lru_step s) xs (time_stamp (bufs s ! x), Some x) = (m', a')"
      by (simp add: lru_step_apply)
    from Cons.IH [OF this] True show ?thesis
      by (auto simp: not_less intro: order_less_trans)
  next
    case False
    with Cons.prems have "fold (lru_step s) xs (m, a) = (m', a')"
      by (simp add: lru_step_apply)
    from Cons.IH [OF this] False show ?thesis
      by (auto simp: not_less)
  qed
qed

subsection \<open>first_wins\<close>







subsection \<open>Bookkeeping updates keep the shape\<close>

lemma chains_ok_upd:
  "(\<And>x. next (f x) = next x) \<Longrightarrow> chains_ok NBUF NBUCKET (upd_buf b f s) cs = chains_ok NBUF NBUCKET s cs"
  by (simp add: chains_ok_def chain_upd_keeps_next)



lemma acquiresleep_cases:
  "acquiresleep pid b s = Returns (b, upd_buf b (\<lambda>x. x\<lparr>lock := Some pid\<rparr>) s)
   \<or> acquiresleep pid b s = Sleeps (b, s)"
  by (simp add: acquiresleep_def split: option.splits)





lemma bget_on_chain:
  assumes c: "chains_ok NBUF NBUCKET s cs" and K: "0 < NBUCKET"
  shows "bget NBUF NBUCKET pid d bn s =
    (case find (\<lambda>i. key (bufs s ! i) = (d, bn)) (cs (unat bn mod NBUCKET)) of
       Some b \<Rightarrow> acquiresleep pid b (upd_buf b (\<lambda>x. x\<lparr>refcnt := refcnt x + 1\<rparr>) s)
     | None \<Rightarrow>
        (case fold (lru_step s) (cs (unat bn mod NBUCKET)) (0xFFFFFFFF, None) of
           (nowmin, Some ans) \<Rightarrow> acquiresleep pid ans (repurpose ans d bn s)
         | (nowmin, None) \<Rightarrow> bget_fallback NBUF NBUCKET pid d bn (unat bn mod NBUCKET) nowmin s))"
proof -
  let ?id = "unat bn mod NBUCKET"
  from K have "?id < NBUCKET" by simp
  with c have ch: "chain s (heads s ! ?id) (cs ?id)"
    by (simp add: chains_ok_def)
  show ?thesis
    unfolding bget_def Let_def scan_cached_chain [OF ch] scan_lru_chain [OF ch]
    by (simp split: option.splits prod.splits)
qed



lemma bget_fallback_on_chain:
  assumes c: "chains_ok NBUF NBUCKET s cs"
  shows "bget_fallback NBUF NBUCKET pid d bn id' nowmin s =
    (case snd (fold (lru_step s) [0..<NBUF] (nowmin, None)) of
       None \<Rightarrow> Panics ''bget: no buffers''
     | Some ans \<Rightarrow>
         let findid = unat (blockno (bufs s ! ans)) mod 13
         in if findid \<ge> NBUCKET then Faults
            else if ans \<in> set (cs findid)
            then
              (let pre = last (Head findid # map Slot (takeWhile (\<lambda>x. x \<noteq> ans) (cs findid)));
                   s1 = set_next pre (next (bufs s ! ans)) s;
                   s2 = set_next (Slot ans) (heads s1 ! id') s1;
                   s3 = s2\<lparr>heads := (heads s2)[id' := Some ans]\<rparr>
               in acquiresleep pid ans (repurpose ans d bn s3))
            else Faults)"
proof (cases "snd (fold (lru_step s) [0..<NBUF] (nowmin, None))")
  case None
  then show ?thesis by (simp add: bget_fallback_def scan_pool_def)
next
  case (Some ans)
  let ?f = "unat (blockno (bufs s ! ans)) mod 13"
  show ?thesis
  proof (cases "?f \<ge> NBUCKET")
    case True
    with Some show ?thesis by (simp add: bget_fallback_def scan_pool_def Let_def)
  next
    case False
    with c have "chain s (heads s ! ?f) (cs ?f)"
      by (simp add: chains_ok_def)
    from find_pre_chain [OF this, of "Head ?f" ans] Some False show ?thesis
      by (simp add: bget_fallback_def scan_pool_def Let_def get_next_def)
  qed
qed

text \<open>Taking \<open>a\<close> off the chain of bucket \<open>f\<close>.\<close>

lemma unlink_chain:
  assumes c: "chains_ok NBUF NBUCKET s cs" and f: "f < NBUCKET" and xs: "cs f = ys @ a # zs"
  defines "s1 \<equiv> set_next (last (Head f # map Slot ys)) (next (bufs s ! a)) s"
  shows "length (bufs s1) = NBUF" "length (heads s1) = NBUCKET"
    "chain s1 (heads s1 ! f) (ys @ zs)"
    "\<forall>j<NBUCKET. j \<noteq> f \<longrightarrow> heads s1 ! j = heads s ! j \<and> chain s1 (heads s1 ! j) (cs j)"
    "\<forall>y. key (bufs s1 ! y) = key (bufs s ! y) \<and> refcnt (bufs s1 ! y) = refcnt (bufs s ! y)"
proof -
  from c f have ch: "chain s (heads s ! f) (cs f)" and lens: "length (bufs s) = NBUF" "length (heads s) = NBUCKET"
    by (simp_all add: chains_ok_def)
  from ch have d: "distinct (ys @ a # zs)"
    unfolding xs by (rule chain_distinct)
  show "length (bufs s1) = NBUF" "length (heads s1) = NBUCKET"
    using lens by (simp_all add: s1_def set_next_fields)
  show "\<forall>y. key (bufs s1 ! y) = key (bufs s ! y) \<and> refcnt (bufs s1 ! y) = refcnt (bufs s ! y)"
    by (simp add: s1_def set_next_def bufs_upd_buf key_def split: bufptr.splits)
  show "chain s1 (heads s1 ! f) (ys @ zs)"
  proof (cases "ys = []")
    case True
    with ch xs f lens show ?thesis
      by (simp add: s1_def set_next_def)
  next
    case False
    then have p: "last (Head f # map Slot ys) = Slot (last ys)"
      by (simp add: last_map)
    from False c f xs have "last ys < length (bufs s)"
      by (auto simp: chains_ok_def)
    with ch xs False have "chain (upd_buf (last ys) (\<lambda>x. x\<lparr>next := next (bufs s ! a)\<rparr>) s) (heads s ! f) (ys @ zs)"
      by (simp add: chain_unlink_inner)
    then show ?thesis
      unfolding s1_def p by (simp add: set_next_def)
  qed
  show "\<forall>j<NBUCKET. j \<noteq> f \<longrightarrow> heads s1 ! j = heads s ! j \<and> chain s1 (heads s1 ! j) (cs j)"
  proof (intro allI impI)
    fix j assume j: "j < NBUCKET" "j \<noteq> f"
    with c have cj: "chain s (heads s ! j) (cs j)"
      by (simp add: chains_ok_def)
    from c f j have dis: "set (cs j) \<inter> set (cs f) = {}"
      unfolding chains_ok_def by blast
    show "heads s1 ! j = heads s ! j \<and> chain s1 (heads s1 ! j) (cs j)"
    proof (cases "ys = []")
      case True
      with cj j show ?thesis
        by (simp add: s1_def set_next_def)
    next
      case False
      then have p: "last (Head f # map Slot ys) = Slot (last ys)"
        by (simp add: last_map)
      from False have "last ys \<in> set (cs f)"
        by (simp add: xs)
      with dis have "last ys \<notin> set (cs j)" by blast
      with cj show ?thesis
        unfolding s1_def p by (simp add: set_next_def chain_upd_notin)
    qed
  qed
qed

lemma chain_relink:
  "chain s1 p xs \<Longrightarrow> ans \<notin> set xs \<Longrightarrow>
   chain (repurpose ans d bn ((set_next (Slot ans) v s1)\<lparr>heads := h\<rparr>)) p xs"
  by (simp add: repurpose_def set_next_def chain_upd_notin)

text \<open>
  The shape after the fallback has moved the victim \<open>ans\<close> from the chain of bucket
  \<open>f\<close> to the head of the chain of the requesting bucket \<open>id'\<close>.
\<close>

lemma fallback_shape:
  fixes d bn :: uint
  assumes c: "chains_ok NBUF NBUCKET s cs"
    and id: "id' < NBUCKET"
    and none: "fold (lru_step s) (cs id') (m, None) = (nowmin, None)"
    and pool: "snd (fold (lru_step s) [0..<NBUF] (nowmin, None)) = Some ans"
    and f: "f < NBUCKET" and mem: "ans \<in> set (cs f)"
  defines "s1 \<equiv> set_next (last (Head f # map Slot (takeWhile (\<lambda>x. x \<noteq> ans) (cs f)))) (next (bufs s ! ans)) s"
  defines "s2 \<equiv> set_next (Slot ans) (heads s1 ! id') s1"
  defines "s4 \<equiv> repurpose ans d bn (s2\<lparr>heads := (heads s2)[id' := Some ans]\<rparr>)"
  shows "\<exists>ys zs. cs f = ys @ ans # zs \<and> ans \<notin> set ys \<and> ans \<notin> set zs \<and> ans \<notin> set (cs id')
           \<and> f \<noteq> id' \<and> ans < NBUF
           \<and> chains_ok NBUF NBUCKET s4 (cs(f := ys @ zs, id' := ans # cs id'))
           \<and> (\<forall>y. y \<noteq> ans \<longrightarrow> key (bufs s4 ! y) = key (bufs s ! y)
                              \<and> refcnt (bufs s4 ! y) = refcnt (bufs s ! y))
           \<and> key (bufs s4 ! ans) = (d, bn)"
proof -
  from fold_lru_cases [OF none] have nm: "nowmin = m"
    and nocand: "\<forall>x\<in>set (cs id'). \<not> (refcnt (bufs s ! x) = 0 \<and> time_stamp (bufs s ! x) < m)"
    by auto
  obtain m' where "fold (lru_step s) [0..<NBUF] (nowmin, None) = (m', Some ans)"
    using pool by (cases "fold (lru_step s) [0..<NBUF] (nowmin, None)") simp
  from fold_lru_cases [OF this] have ans: "ans < NBUF" "refcnt (bufs s ! ans) = 0"
    "time_stamp (bufs s ! ans) < nowmin"
    by auto
  with nocand nm have notin: "ans \<notin> set (cs id')" by auto
  with mem have fid: "f \<noteq> id'" by auto
  from mem obtain ys zs where xs: "cs f = ys @ ans # zs" and ys: "ans \<notin> set ys"
    by (auto dest: split_list_first)
  from c f have "chain s (heads s ! f) (cs f)" by (simp add: chains_ok_def)
  then have "distinct (cs f)" by (rule chain_distinct)
  with xs have zs: "ans \<notin> set zs" by simp
  have "takeWhile (\<lambda>x. x \<noteq> ans) (ys @ ans # zs) = ys @ takeWhile (\<lambda>x. x \<noteq> ans) (ans # zs)"
    using ys by (intro takeWhile_append2) auto
  then have tw: "takeWhile (\<lambda>x. x \<noteq> ans) (cs f) = ys"
    by (simp add: xs)
  have s1: "s1 = set_next (last (Head f # map Slot ys)) (next (bufs s ! ans)) s"
    by (simp add: s1_def tw)
  note u = unlink_chain [OF c f xs, folded s1]
  from c have lens: "length (bufs s) = NBUF" "length (heads s) = NBUCKET"
    by (simp_all add: chains_ok_def)
  define cs' where "cs' = cs(f := ys @ zs, id' := ans # cs id')"
  have cs'f: "cs' f = ys @ zs" and cs'id: "cs' id' = ans # cs id'"
    and cs'o: "\<And>j. j \<noteq> f \<Longrightarrow> j \<noteq> id' \<Longrightarrow> cs' j = cs j"
    using fid by (simp_all add: cs'_def)
  have sets: "\<And>j. j < NBUCKET \<Longrightarrow> set (cs' j) \<subseteq> insert ans (set (cs j))"
    "\<And>j. j < NBUCKET \<Longrightarrow> set (cs j) \<subseteq> insert ans (set (cs' j))"
    using xs by (auto simp: cs'_def)
  have only: "\<And>j. j < NBUCKET \<Longrightarrow> j \<noteq> id' \<Longrightarrow> ans \<notin> set (cs' j)"
  proof -
    fix j assume j: "j < NBUCKET" "j \<noteq> id'"
    show "ans \<notin> set (cs' j)"
    proof (cases "j = f")
      case True
      with ys zs show ?thesis by (simp add: cs'f)
    next
      case False
      with c f j mem have "ans \<notin> set (cs j)"
        unfolding chains_ok_def by blast
      with False j show ?thesis by (simp add: cs'o)
    qed
  qed
  have b4: "\<forall>y. y \<noteq> ans \<longrightarrow> key (bufs s4 ! y) = key (bufs s ! y) \<and> refcnt (bufs s4 ! y) = refcnt (bufs s ! y)"
    using u(5) by (simp add: s4_def s2_def repurpose_def set_next_def bufs_upd_buf)
  have ka: "key (bufs s4 ! ans) = (d, bn)"
    using ans u(1) by (simp add: s4_def s2_def repurpose_def set_next_def bufs_upd_buf key_def)
  have h4: "heads s4 = (heads s1)[id' := Some ans]"
    by (simp add: s4_def s2_def repurpose_def set_next_def)
  have na: "next (bufs s4 ! ans) = heads s ! id'"
    using ans u(1) u(4) id fid by (simp add: s4_def s2_def repurpose_def set_next_def bufs_upd_buf)
  have chains: "\<forall>j<NBUCKET. chain s4 (heads s4 ! j) (cs' j)"
  proof (intro allI impI)
    fix j assume j: "j < NBUCKET"
    show "chain s4 (heads s4 ! j) (cs' j)"
    proof (cases "j = id'")
      case True
      from u(4) id fid have "chain s1 (heads s ! id') (cs id')" by auto
      then have "chain s4 (heads s ! id') (cs id')"
        unfolding s4_def s2_def using notin by (rule chain_relink)
      with True id u(2) na show ?thesis
        by (simp add: h4 cs'id)
    next
      case False
      have "chain s1 (heads s1 ! j) (cs' j)"
      proof (cases "j = f")
        case True
        with u(3) show ?thesis by (simp add: cs'f)
      next
        case jf: False
        from u(4) j jf have "chain s1 (heads s1 ! j) (cs j)" by blast
        with False jf show ?thesis by (simp add: cs'o)
      qed
      then have "chain s4 (heads s1 ! j) (cs' j)"
        unfolding s4_def s2_def using only [OF j False] by (rule chain_relink)
      with False show ?thesis by (simp add: h4)
    qed
  qed
  have bound: "\<forall>j<NBUCKET. \<forall>b\<in>set (cs' j). b < NBUF"
  proof (intro allI impI ballI)
    fix j b assume j: "j < NBUCKET" "b \<in> set (cs' j)"
    with sets(1) have "b = ans \<or> b \<in> set (cs j)" by blast
    with c j ans show "b < NBUF" by (auto simp: chains_ok_def)
  qed
  have disj: "\<forall>i<NBUCKET. \<forall>j<NBUCKET. i \<noteq> j \<longrightarrow> set (cs' i) \<inter> set (cs' j) = {}"
  proof (intro allI impI)
    fix i j assume ij: "i < NBUCKET" "j < NBUCKET" "i \<noteq> j"
    have old: "set (cs i) \<inter> set (cs j) = {}"
      using c ij unfolding chains_ok_def by blast
    show "set (cs' i) \<inter> set (cs' j) = {}"
    proof (rule ccontr)
      assume "set (cs' i) \<inter> set (cs' j) \<noteq> {}"
      then obtain b where b: "b \<in> set (cs' i)" "b \<in> set (cs' j)" by blast
      show False
      proof (cases "b = ans")
        case True
        with b only [of i] only [of j] ij show False by blast
      next
        case False
        with b sets(1) [of i] sets(1) [of j] ij have "b \<in> set (cs i)" "b \<in> set (cs j)"
          by blast+
        with old show False by blast
      qed
    qed
  qed
  have len4: "length (bufs s4) = NBUF" "length (heads s4) = NBUCKET"
    using u(1,2) by (simp_all add: s4_def s2_def repurpose_def set_next_def)
  have C: "chains_ok NBUF NBUCKET s4 cs'"
    unfolding chains_ok_def using len4 chains bound disj by blast
  from C have "chains_ok NBUF NBUCKET s4 (cs(f := ys @ zs, id' := ans # cs id'))"
    by (simp add: cs'_def)
  with xs ys zs notin fid ans(1) b4 ka show ?thesis by blast
qed





lemma initsleeplock_bss: "initsleeplock b (bss NBUF NBUCKET) = bss NBUF NBUCKET"
proof (cases "b < NBUF")
  case True
  then have "(replicate NBUF zero_buf)[b := zero_buf\<lparr>lock := None\<rparr>] = replicate NBUF zero_buf"
    by (intro nth_equalityI) (auto simp: nth_list_update zero_buf_def)
  with True show ?thesis
    by (simp add: initsleeplock_def upd_buf_def bss_def)
next
  case False
  then show ?thesis
    by (simp add: initsleeplock_def upd_buf_def bss_def list_update_beyond)
qed

lemma fold_initsleeplock_bss: "fold initsleeplock xs (bss NBUF NBUCKET) = bss NBUF NBUCKET"
  by (induction xs) (simp_all add: initsleeplock_bss)

lemma binit_inv_bss: "binit_inv NBUF NBUCKET (bss NBUF NBUCKET) 0 (\<lambda>_. [])"
  by (simp add: binit_inv_def chains_ok_def bss_def zero_buf_def)

lemma binit_link_inv:
  assumes inv: "binit_inv NBUF NBUCKET s b cs" and i: "i < NBUCKET" and b: "b < NBUF"
  shows "binit_inv NBUF NBUCKET (fst (binit_link i (s, b))) (Suc b) (cs(i := b # cs i))"
    and "snd (binit_link i (s, b)) = Suc b"
proof -
  let ?s1 = "upd_buf b (\<lambda>x. x\<lparr>blockno := of_nat i\<rparr>) s"
  let ?s2 = "upd_buf b (\<lambda>x. x\<lparr>next := heads s ! i\<rparr>) ?s1"
  let ?s3 = "?s2\<lparr>heads := (heads s)[i := Some b]\<rparr>"
  let ?cs = "cs(i := b # cs i)"
  have link: "binit_link i (s, b) = (?s3, Suc b)"
    by (simp add: binit_link_def set_next_def Let_def)
  then show "snd (binit_link i (s, b)) = Suc b" by simp
  from inv have c: "chains_ok NBUF NBUCKET s cs"
    and below: "\<forall>j<NBUCKET. \<forall>x\<in>set (cs j). x < b \<and> blockno (bufs s ! x) = of_nat j"
    and idle: "\<forall>x<NBUF. refcnt (bufs s ! x) = 0"
    by (simp_all add: binit_inv_def)
  from c have lens: "length (bufs s) = NBUF" "length (heads s) = NBUCKET"
    by (simp_all add: chains_ok_def)
  have fresh: "\<forall>j<NBUCKET. b \<notin> set (cs j)"
    using below by auto
  have keep: "\<And>p xs. chain s p xs \<Longrightarrow> b \<notin> set xs \<Longrightarrow> chain ?s3 p xs"
    by (simp add: chain_upd_notin)
  have chains: "\<forall>j<NBUCKET. chain ?s3 (heads ?s3 ! j) (?cs j)"
  proof (intro allI impI)
    fix j assume j: "j < NBUCKET"
    from c j have cj: "chain s (heads s ! j) (cs j)" by (simp add: chains_ok_def)
    show "chain ?s3 (heads ?s3 ! j) (?cs j)"
    proof (cases "j = i")
      case True
      from cj fresh j have "chain ?s3 (heads s ! j) (cs j)" by (intro keep) auto
      with True i b lens show ?thesis
        by (simp add: bufs_upd_buf)
    next
      case False
      from cj fresh j have "chain ?s3 (heads s ! j) (cs j)" by (intro keep) auto
      with False show ?thesis by simp
    qed
  qed
  have bound: "\<forall>j<NBUCKET. \<forall>x\<in>set (?cs j). x < NBUF"
    using c b by (auto simp: chains_ok_def)
  have disj: "\<forall>j<NBUCKET. \<forall>l<NBUCKET. j \<noteq> l \<longrightarrow> set (?cs j) \<inter> set (?cs l) = {}"
  proof (intro allI impI)
    fix j l assume jl: "j < NBUCKET" "l < NBUCKET" "j \<noteq> l"
    with c have "set (cs j) \<inter> set (cs l) = {}"
      unfolding chains_ok_def by blast
    with fresh jl show "set (?cs j) \<inter> set (?cs l) = {}" by auto
  qed
  have C: "chains_ok NBUF NBUCKET ?s3 ?cs"
    unfolding chains_ok_def using lens chains bound disj by simp
  have below': "\<forall>j<NBUCKET. \<forall>x\<in>set (?cs j). x < Suc b \<and> blockno (bufs ?s3 ! x) = of_nat j"
  proof (intro allI impI ballI)
    fix j x assume j: "j < NBUCKET" and x: "x \<in> set (?cs j)"
    show "x < Suc b \<and> blockno (bufs ?s3 ! x) = of_nat j"
    proof (cases "x = b")
      case True
      with x fresh j have "j = i" by (auto split: if_splits)
      with True b lens show ?thesis by (simp add: bufs_upd_buf)
    next
      case False
      with x have "x \<in> set (cs j)" by (auto split: if_splits)
      with below j have "x < b" "blockno (bufs s ! x) = of_nat j" by auto
      with False show ?thesis by (simp add: bufs_upd_buf)
    qed
  qed
  have idle': "\<forall>x<NBUF. refcnt (bufs ?s3 ! x) = 0"
    using idle by (simp add: bufs_upd_buf)
  show "binit_inv NBUF NBUCKET (fst (binit_link i (s, b))) (Suc b) (cs(i := b # cs i))"
    unfolding link binit_inv_def using C b below' idle' by simp
qed

lemma binit_inner:
  "binit_inv NBUF NBUCKET s b cs \<Longrightarrow> i < NBUCKET \<Longrightarrow> b + n \<le> NBUF \<Longrightarrow>
   \<exists>s' cs'. fold (\<lambda>j. binit_link i) [0..<n] (s, b) = (s', b + n) \<and> binit_inv NBUF NBUCKET s' (b + n) cs'"
proof (induction n)
  case 0
  then show ?case by auto
next
  case (Suc n)
  then obtain s' cs' where f: "fold (\<lambda>j. binit_link i) [0..<n] (s, b) = (s', b + n)"
    and inv: "binit_inv NBUF NBUCKET s' (b + n) cs'"
    by auto
  from Suc.prems have "b + n < NBUF" by simp
  from binit_link_inv [OF inv Suc.prems(2) this] f show ?case
    by (cases "binit_link i (s', b + n)") auto
qed

lemma binit_outer:
  "binit_inv NBUF NBUCKET s 0 cs \<Longrightarrow> m \<le> NBUCKET \<Longrightarrow> m * k \<le> NBUF \<Longrightarrow>
   \<exists>s' cs'. fold (\<lambda>i. fold (\<lambda>j. binit_link i) [0..<k]) [0..<m] (s, 0) = (s', m * k)
          \<and> binit_inv NBUF NBUCKET s' (m * k) cs'"
proof (induction m)
  case 0
  then show ?case by auto
next
  case (Suc m)
  from Suc.prems have "m \<le> NBUCKET" "m * k \<le> NBUF" by simp_all
  with Suc.IH Suc.prems(1) obtain s' cs' where
    f: "fold (\<lambda>i. fold (\<lambda>j. binit_link i) [0..<k]) [0..<m] (s, 0) = (s', m * k)"
    and inv: "binit_inv NBUF NBUCKET s' (m * k) cs'"
    by blast
  from Suc.prems have "m < NBUCKET" "m * k + k \<le> NBUF" by (simp_all add: add.commute)
  from binit_inner [OF inv this] f show ?case
    by (auto simp: add.commute)
qed

lemma first_wins_idle: "\<forall>x\<in>set xs. refcnt (bufs s ! x) = 0 \<Longrightarrow> first_wins s xs"
  by (induction xs) auto

lemma binit_inv_cache_inv:
  assumes inv: "binit_inv NBUF NBUCKET s b cs" and K: "NBUCKET \<le> 2 ^ 32"
  shows "cache_inv NBUF NBUCKET s"
proof -
  from inv have c: "chains_ok NBUF NBUCKET s cs"
    and below: "\<forall>j<NBUCKET. \<forall>x\<in>set (cs j). x < b \<and> blockno (bufs s ! x) = of_nat j"
    and idle: "\<forall>x<NBUF. refcnt (bufs s ! x) = 0"
    by (simp_all add: binit_inv_def)
  have "\<forall>i<NBUCKET. \<forall>x\<in>set (cs i). unat (blockno (bufs s ! x)) mod NBUCKET = i"
  proof (intro allI impI ballI)
    fix i x assume i: "i < NBUCKET" and x: "x \<in> set (cs i)"
    with K have "i < 2 ^ 32" by simp
    then have "unat (of_nat i :: uint) = i"
      by (simp add: unat_of_nat)
    with below i x show "unat (blockno (bufs s ! x)) mod NBUCKET = i" by simp
  qed
  moreover have "\<forall>i<NBUCKET. first_wins s (cs i)"
  proof (intro allI impI)
    fix i assume "i < NBUCKET"
    with c idle have "\<forall>x\<in>set (cs i). refcnt (bufs s ! x) = 0"
      by (auto simp: chains_ok_def)
    then show "first_wins s (cs i)" by (rule first_wins_idle)
  qed
  ultimately have "keys_ok NBUF NBUCKET s cs"
    unfolding keys_ok_def using idle by blast
  with c show ?thesis by (auto simp: cache_inv_def)
qed

lemma cache_inv_boot:
  assumes K: "NBUCKET \<le> 2 ^ 32"
  shows "cache_inv NBUF NBUCKET (boot NBUF NBUCKET)"
proof -
  have "NBUCKET * (NBUF div NBUCKET) \<le> NBUF" by simp
  from binit_outer [OF binit_inv_bss order_refl this]
  obtain s' cs' where
    f: "fold (\<lambda>i. fold (\<lambda>j. binit_link i) [0..<NBUF div NBUCKET]) [0..<NBUCKET] (bss NBUF NBUCKET, 0)
          = (s', NBUCKET * (NBUF div NBUCKET))"
    and inv: "binit_inv NBUF NBUCKET s' (NBUCKET * (NBUF div NBUCKET)) cs'"
    by blast
  from f have "boot NBUF NBUCKET = s'"
    by (simp add: boot_def binit_def fold_initsleeplock_bss)
  with inv K show ?thesis
    by (auto intro: binit_inv_cache_inv)
qed




lemma acquiresleep_Returns:
  "acquiresleep pid b t = Returns (b', t') \<Longrightarrow>
   b' = b \<and> lock (bufs t ! b) = None \<and> t' = upd_buf b (\<lambda>x. x\<lparr>lock := Some pid\<rparr>) t"
  by (auto simp: acquiresleep_def split: option.splits)

lemma acquiresleep_Sleeps:
  "acquiresleep pid b t = Sleeps (b', t') \<Longrightarrow> b' = b \<and> t' = t"
  by (auto simp: acquiresleep_def split: option.splits)

lemma acquiresleep_books:
  assumes "acquiresleep pid b t = Returns (b', t') \<or> acquiresleep pid b t = Sleeps (b', t')"
  shows "b' = b"
    and "\<forall>y. key (bufs t' ! y) = key (bufs t ! y) \<and> valid (bufs t' ! y) = valid (bufs t ! y)
           \<and> refcnt (bufs t' ! y) = refcnt (bufs t ! y)"
  using assms
  by (auto simp: bufs_upd_buf key_def dest!: acquiresleep_Returns acquiresleep_Sleeps)

lemma acquiresleep_lock:
  "acquiresleep pid b t = Returns (b', t') \<Longrightarrow> b < length (bufs t) \<Longrightarrow>
   lock (bufs t ! b') = None \<and> lock (bufs t' ! b') = Some pid"
  by (auto simp: bufs_upd_buf dest!: acquiresleep_Returns)

text \<open>What a call of \<open>bget\<close> that came back, or went to sleep on the lock, has done.\<close>

lemma bget_summary:
  assumes c: "chains_ok NBUF NBUCKET s cs" and K: "0 < NBUCKET"
    and r: "bget NBUF NBUCKET pid d bn s = Returns (b, s') \<or> bget NBUF NBUCKET pid d bn s = Sleeps (b, s')"
  shows "b < NBUF"
    and "\<forall>y. y \<noteq> b \<longrightarrow> key (bufs s' ! y) = key (bufs s ! y) \<and> valid (bufs s' ! y) = valid (bufs s ! y)
            \<and> refcnt (bufs s' ! y) = refcnt (bufs s ! y)"
    and "\<forall>c. scan_cached s (d, bn) (heads s ! (unat bn mod NBUCKET)) = Some (Some c) \<longrightarrow>
            b = c \<and> key (bufs s' ! b) = key (bufs s ! b) \<and> valid (bufs s' ! b) = valid (bufs s ! b)
            \<and> refcnt (bufs s' ! b) = refcnt (bufs s ! b) + 1"
    and "scan_cached s (d, bn) (heads s ! (unat bn mod NBUCKET)) = Some None \<longrightarrow>
            refcnt (bufs s ! b) = 0 \<and> valid (bufs s' ! b) = 0 \<and> refcnt (bufs s' ! b) = 1"
    and "key (bufs s' ! b) = (d, bn)"
    and "scan_cached s (d, bn) (heads s ! (unat bn mod NBUCKET)) \<noteq> None"
    and "bget NBUF NBUCKET pid d bn s = Returns (b, s') \<longrightarrow>
            lock (bufs s ! b) = None \<and> lock (bufs s' ! b) = Some pid"
proof -
  let ?id = "unat bn mod NBUCKET"
  from K have id: "?id < NBUCKET" by simp
  with c have ch: "chain s (heads s ! ?id) (cs ?id)" by (simp add: chains_ok_def)
  note sc = scan_cached_chain [OF ch, of "(d, bn)"]
  from c have len: "length (bufs s) = NBUF" by (simp add: chains_ok_def)
  note B = bget_on_chain [OF c K, of pid d bn]
  have "b < NBUF
    \<and> (\<forall>y. y \<noteq> b \<longrightarrow> key (bufs s' ! y) = key (bufs s ! y) \<and> valid (bufs s' ! y) = valid (bufs s ! y)
            \<and> refcnt (bufs s' ! y) = refcnt (bufs s ! y))
    \<and> (\<forall>c. find (\<lambda>i. key (bufs s ! i) = (d, bn)) (cs ?id) = Some c \<longrightarrow>
            b = c \<and> key (bufs s' ! b) = key (bufs s ! b) \<and> valid (bufs s' ! b) = valid (bufs s ! b)
            \<and> refcnt (bufs s' ! b) = refcnt (bufs s ! b) + 1)
    \<and> (find (\<lambda>i. key (bufs s ! i) = (d, bn)) (cs ?id) = None \<longrightarrow>
            refcnt (bufs s ! b) = 0 \<and> valid (bufs s' ! b) = 0 \<and> refcnt (bufs s' ! b) = 1)
    \<and> key (bufs s' ! b) = (d, bn)
    \<and> (bget NBUF NBUCKET pid d bn s = Returns (b, s') \<longrightarrow>
            lock (bufs s ! b) = None \<and> lock (bufs s' ! b) = Some pid)"
  proof (cases "find (\<lambda>i. key (bufs s ! i) = (d, bn)) (cs ?id)")
    case (Some b0)
    let ?s = "upd_buf b0 (\<lambda>x. x\<lparr>refcnt := refcnt x + 1\<rparr>) s"
    from Some have b0: "b0 \<in> set (cs ?id)" "key (bufs s ! b0) = (d, bn)"
      by (auto simp: find_Some_iff)
    with c id len have l0: "b0 < length (bufs s)" by (auto simp: chains_ok_def)
    from B Some have E: "bget NBUF NBUCKET pid d bn s = acquiresleep pid b0 ?s"
      by simp
    with r have "acquiresleep pid b0 ?s = Returns (b, s') \<or> acquiresleep pid b0 ?s = Sleeps (b, s')"
      by simp
    note A = acquiresleep_books [OF this]
    have L: "bget NBUF NBUCKET pid d bn s = Returns (b, s') \<longrightarrow>
            lock (bufs s ! b) = None \<and> lock (bufs s' ! b) = Some pid"
      unfolding E using l0 by (auto simp: bufs_upd_buf split: if_splits dest!: acquiresleep_lock)
    from A b0 l0 len Some have "b < NBUF
    \<and> (\<forall>y. y \<noteq> b \<longrightarrow> key (bufs s' ! y) = key (bufs s ! y) \<and> valid (bufs s' ! y) = valid (bufs s ! y)
            \<and> refcnt (bufs s' ! y) = refcnt (bufs s ! y))
    \<and> (\<forall>c. find (\<lambda>i. key (bufs s ! i) = (d, bn)) (cs ?id) = Some c \<longrightarrow>
            b = c \<and> key (bufs s' ! b) = key (bufs s ! b) \<and> valid (bufs s' ! b) = valid (bufs s ! b)
            \<and> refcnt (bufs s' ! b) = refcnt (bufs s ! b) + 1)
    \<and> (find (\<lambda>i. key (bufs s ! i) = (d, bn)) (cs ?id) = None \<longrightarrow>
            refcnt (bufs s ! b) = 0 \<and> valid (bufs s' ! b) = 0 \<and> refcnt (bufs s' ! b) = 1)
    \<and> key (bufs s' ! b) = (d, bn)"
      by (simp add: bufs_upd_buf key_def)
    with L show ?thesis by (elim conjE) (intro conjI; assumption)
  next
    case None
    obtain nowmin a where l: "fold (lru_step s) (cs ?id) (0xFFFFFFFF, None) = (nowmin, a)"
      by (cases "fold (lru_step s) (cs ?id) (0xFFFFFFFF, None)")
    show ?thesis
    proof (cases a)
      case (Some ans)
      let ?s = "repurpose ans d bn s"
      from fold_lru_cases [OF l] Some have a: "ans \<in> set (cs ?id)" "refcnt (bufs s ! ans) = 0"
        by auto
      with c id len have la: "ans < length (bufs s)" by (auto simp: chains_ok_def)
      from B None l Some have E: "bget NBUF NBUCKET pid d bn s = acquiresleep pid ans ?s"
        by simp
      with r have "acquiresleep pid ans ?s = Returns (b, s') \<or> acquiresleep pid ans ?s = Sleeps (b, s')"
        by simp
      note A = acquiresleep_books [OF this]
      have L: "bget NBUF NBUCKET pid d bn s = Returns (b, s') \<longrightarrow>
            lock (bufs s ! b) = None \<and> lock (bufs s' ! b) = Some pid"
        unfolding E using la by (auto simp: repurpose_def bufs_upd_buf split: if_splits dest!: acquiresleep_lock)
      from A a la len None have "b < NBUF
    \<and> (\<forall>y. y \<noteq> b \<longrightarrow> key (bufs s' ! y) = key (bufs s ! y) \<and> valid (bufs s' ! y) = valid (bufs s ! y)
            \<and> refcnt (bufs s' ! y) = refcnt (bufs s ! y))
    \<and> (\<forall>c. find (\<lambda>i. key (bufs s ! i) = (d, bn)) (cs ?id) = Some c \<longrightarrow>
            b = c \<and> key (bufs s' ! b) = key (bufs s ! b) \<and> valid (bufs s' ! b) = valid (bufs s ! b)
            \<and> refcnt (bufs s' ! b) = refcnt (bufs s ! b) + 1)
    \<and> (find (\<lambda>i. key (bufs s ! i) = (d, bn)) (cs ?id) = None \<longrightarrow>
            refcnt (bufs s ! b) = 0 \<and> valid (bufs s' ! b) = 0 \<and> refcnt (bufs s' ! b) = 1)
    \<and> key (bufs s' ! b) = (d, bn)"
        by (simp add: repurpose_def bufs_upd_buf key_def)
      with L show ?thesis by (elim conjE) (intro conjI; assumption)
    next
      case na: None
      from r B None l na
      have F: "bget_fallback NBUF NBUCKET pid d bn ?id nowmin s = Returns (b, s')
             \<or> bget_fallback NBUF NBUCKET pid d bn ?id nowmin s = Sleeps (b, s')"
        by simp
      note FB = bget_fallback_on_chain [OF c, of pid d bn ?id nowmin]
      show ?thesis
      proof (cases "snd (fold (lru_step s) [0..<NBUF] (nowmin, None))")
        case None
        with F FB show ?thesis by simp
      next
        case (Some ans)
        let ?f = "unat (blockno (bufs s ! ans)) mod 13"
        obtain m' where "fold (lru_step s) [0..<NBUF] (nowmin, None) = (m', Some ans)"
          using Some by (cases "fold (lru_step s) [0..<NBUF] (nowmin, None)") simp
        from fold_lru_cases [OF this] have a: "ans < NBUF" "refcnt (bufs s ! ans) = 0"
          by auto
        from F FB Some have f: "?f < NBUCKET"
          by (auto simp: Let_def split: if_splits)
        from F FB Some f have mem: "ans \<in> set (cs ?f)"
          by (auto simp: Let_def split: if_splits)
        let ?s1 = "set_next (last (Head ?f # map Slot (takeWhile (\<lambda>x. x \<noteq> ans) (cs ?f)))) (next (bufs s ! ans)) s"
        let ?s2 = "set_next (Slot ans) (heads ?s1 ! ?id) ?s1"
        let ?s4 = "repurpose ans d bn (?s2\<lparr>heads := (heads ?s2)[?id := Some ans]\<rparr>)"
        from FB Some f mem
        have E: "bget_fallback NBUF NBUCKET pid d bn ?id nowmin s = acquiresleep pid ans ?s4"
          by (simp add: Let_def)
        with F have "acquiresleep pid ans ?s4 = Returns (b, s') \<or> acquiresleep pid ans ?s4 = Sleeps (b, s')"
          by simp
        note A = acquiresleep_books [OF this]
        from B None l na have E': "bget NBUF NBUCKET pid d bn s = bget_fallback NBUF NBUCKET pid d bn ?id nowmin s"
          by simp
        have l1: "length (bufs ?s1) = NBUF"
          using len by (simp add: set_next_fields)
        have b1: "\<forall>y. key (bufs ?s1 ! y) = key (bufs s ! y) \<and> valid (bufs ?s1 ! y) = valid (bufs s ! y)
             \<and> refcnt (bufs ?s1 ! y) = refcnt (bufs s ! y)"
          by (simp add: set_next_def bufs_upd_buf key_def split: bufptr.splits)
        have "\<forall>y. y \<noteq> ans \<longrightarrow> key (bufs ?s4 ! y) = key (bufs s ! y) \<and> valid (bufs ?s4 ! y) = valid (bufs s ! y)
             \<and> refcnt (bufs ?s4 ! y) = refcnt (bufs s ! y)"
          using b1 by (simp add: repurpose_def set_next_def [of "Slot ans"] bufs_upd_buf)
        moreover have "key (bufs ?s4 ! ans) = (d, bn) \<and> valid (bufs ?s4 ! ans) = 0 \<and> refcnt (bufs ?s4 ! ans) = 1"
          using a l1 by (simp add: repurpose_def set_next_def [of "Slot ans"] bufs_upd_buf key_def)
        moreover have "bget NBUF NBUCKET pid d bn s = Returns (b, s') \<longrightarrow>
            lock (bufs s ! b) = None \<and> lock (bufs s' ! b) = Some pid"
        proof
          assume "bget NBUF NBUCKET pid d bn s = Returns (b, s')"
          with E E' have R: "acquiresleep pid ans ?s4 = Returns (b, s')" by simp
          have "length (bufs ?s4) = NBUF"
            using l1 by (simp add: repurpose_def set_next_def [of "Slot ans"])
          with a have "ans < length (bufs ?s4)" by simp
          from acquiresleep_lock [OF R this] acquiresleep_Returns [OF R]
          have "lock (bufs ?s4 ! b) = None" "lock (bufs s' ! b) = Some pid" by simp_all
          moreover have "lock (bufs ?s4 ! b) = lock (bufs s ! b)"
            by (simp add: repurpose_def set_next_def bufs_upd_buf split: bufptr.splits)
          ultimately show "lock (bufs s ! b) = None \<and> lock (bufs s' ! b) = Some pid" by simp
        qed
        ultimately show ?thesis
          using A a None by simp
      qed
    qed
  qed
  then show "b < NBUF"
    and "\<forall>y. y \<noteq> b \<longrightarrow> key (bufs s' ! y) = key (bufs s ! y) \<and> valid (bufs s' ! y) = valid (bufs s ! y)
            \<and> refcnt (bufs s' ! y) = refcnt (bufs s ! y)"
    and "\<forall>c. scan_cached s (d, bn) (heads s ! (unat bn mod NBUCKET)) = Some (Some c) \<longrightarrow>
            b = c \<and> key (bufs s' ! b) = key (bufs s ! b) \<and> valid (bufs s' ! b) = valid (bufs s ! b)
            \<and> refcnt (bufs s' ! b) = refcnt (bufs s ! b) + 1"
    and "scan_cached s (d, bn) (heads s ! (unat bn mod NBUCKET)) = Some None \<longrightarrow>
            refcnt (bufs s ! b) = 0 \<and> valid (bufs s' ! b) = 0 \<and> refcnt (bufs s' ! b) = 1"
    and "key (bufs s' ! b) = (d, bn)"
    and "scan_cached s (d, bn) (heads s ! (unat bn mod NBUCKET)) \<noteq> None"
    and "bget NBUF NBUCKET pid d bn s = Returns (b, s') \<longrightarrow>
            lock (bufs s ! b) = None \<and> lock (bufs s' ! b) = Some pid"
    unfolding sc by auto
qed

lemma acquiresleep_length:
  "acquiresleep pid b t = Returns (b', t') \<or> acquiresleep pid b t = Sleeps (b', t') \<Longrightarrow>
   length (bufs t') = length (bufs t)"
  by (auto simp: acquiresleep_def split: option.splits)

lemma bget_fallback_length:
  "bget_fallback NBUF NBUCKET pid d bn i m s = Returns (b, s')
     \<or> bget_fallback NBUF NBUCKET pid d bn i m s = Sleeps (b, s') \<Longrightarrow>
   length (bufs s') = length (bufs s)"
  unfolding bget_fallback_def Let_def
  by (auto simp: repurpose_def set_next_fields set_next_def [of "Slot _"]
      split: option.splits if_splits outcome.splits
      dest!: acquiresleep_length [OF disjI1] acquiresleep_length [OF disjI2])

lemma bget_length:
  "bget NBUF NBUCKET pid d bn s = Returns (b, s') \<or> bget NBUF NBUCKET pid d bn s = Sleeps (b, s') \<Longrightarrow>
   length (bufs s') = length (bufs s)"
  unfolding bget_def Let_def
  by (auto simp: repurpose_def
      split: option.splits prod.splits
      dest!: acquiresleep_length [OF disjI1] acquiresleep_length [OF disjI2]
        bget_fallback_length [OF disjI1] bget_fallback_length [OF disjI2])

lemma chains_ok_boot: "NBUCKET \<le> 2 ^ 32 \<Longrightarrow> \<exists>cs. chains_ok NBUF NBUCKET (boot NBUF NBUCKET) cs"
  using cache_inv_boot [of NBUCKET NBUF] by (auto simp: cache_inv_def)



subsection \<open>What bget does on a miss\<close>

text \<open>
  The fallback panics exactly when no descriptor of the pool is unreferenced with a time
  stamp below \<open>nowmin\<close>. A miss in a bucket that has an unreferenced descriptor with
  a time stamp below \<open>UINT32_MAX\<close> takes, among the unreferenced descriptors of the
  bucket, one with the smallest time stamp. In a cache of the right shape every loop of
  \<open>bget\<close> ends.
\<close>

lemma bget_fallback_panics_iff:
  assumes c: "chains_ok NBUF NBUCKET s cs"
  shows "bget_fallback NBUF NBUCKET pid d bn i m s = Panics ''bget: no buffers''
     \<longleftrightarrow> (\<forall>b<NBUF. \<not> (refcnt (bufs s ! b) = 0 \<and> time_stamp (bufs s ! b) < m))"
proof -
  obtain m' a where f: "fold (lru_step s) [0..<NBUF] (m, None) = (m', a)"
    by (cases "fold (lru_step s) [0..<NBUF] (m, None)")
  note FB = bget_fallback_on_chain [OF c, of pid d bn i m]
  show ?thesis
  proof (cases a)
    case None
    with fold_lru_cases [OF f] have "\<forall>b<NBUF. \<not> (refcnt (bufs s ! b) = 0 \<and> time_stamp (bufs s ! b) < m)"
      by auto
    with FB f None show ?thesis by simp
  next
    case (Some ans)
    with fold_lru_cases [OF f] have "ans < NBUF" "refcnt (bufs s ! ans) = 0" "time_stamp (bufs s ! ans) < m"
      by auto
    moreover have "\<And>t. acquiresleep pid ans t \<noteq> Panics ''bget: no buffers''"
      by (simp add: acquiresleep_def split: option.splits)
    then have "bget_fallback NBUF NBUCKET pid d bn i m s \<noteq> Panics ''bget: no buffers''"
      using FB f Some by (simp add: Let_def)
    ultimately show ?thesis by blast
  qed
qed

text \<open>
  When the victim's \<open>findid\<close> is the requesting bucket, whose spin lock the caller
  holds, the victim is not on that chain and the walk faults: no result of the model
  rests on what \<open>acquire\<close> does with a lock that is already held.
\<close>

lemma bget_fallback_same_bucket_faults:
  assumes c: "chains_ok NBUF NBUCKET s cs" and i: "i < NBUCKET"
    and none: "fold (lru_step s) (cs i) (m0, None) = (m, None)"
    and pool: "snd (fold (lru_step s) [0..<NBUF] (m, None)) = Some ans"
    and same: "unat (blockno (bufs s ! ans)) mod 13 = i"
  shows "bget_fallback NBUF NBUCKET pid d bn i m s = Faults"
proof -
  from fold_lru_cases [OF none] have nm: "m = m0"
    and nocand: "\<forall>x\<in>set (cs i). \<not> (refcnt (bufs s ! x) = 0 \<and> time_stamp (bufs s ! x) < m0)"
    by auto
  obtain m' where "fold (lru_step s) [0..<NBUF] (m, None) = (m', Some ans)"
    using pool by (cases "fold (lru_step s) [0..<NBUF] (m, None)") simp
  from fold_lru_cases [OF this] have "refcnt (bufs s ! ans) = 0" "time_stamp (bufs s ! ans) < m"
    by auto
  with nocand nm have "ans \<notin> set (cs i)" by auto
  with bget_fallback_on_chain [OF c, of pid d bn i m] pool same i show ?thesis
    by (simp add: Let_def)
qed

lemma bget_recycles_oldest:
  assumes c: "chains_ok NBUF NBUCKET s cs" and K: "0 < NBUCKET"
    and miss: "find (\<lambda>i. key (bufs s ! i) = (d, bn)) (cs (unat bn mod NBUCKET)) = None"
    and cand: "\<exists>x\<in>set (cs (unat bn mod NBUCKET)).
                 refcnt (bufs s ! x) = 0 \<and> time_stamp (bufs s ! x) < 0xFFFFFFFF"
  shows "\<exists>ans\<in>set (cs (unat bn mod NBUCKET)).
           refcnt (bufs s ! ans) = 0
           \<and> (\<forall>y\<in>set (cs (unat bn mod NBUCKET)).
                 refcnt (bufs s ! y) = 0 \<longrightarrow> time_stamp (bufs s ! ans) \<le> time_stamp (bufs s ! y))
           \<and> bget NBUF NBUCKET pid d bn s = acquiresleep pid ans (repurpose ans d bn s)"
proof -
  let ?xs = "cs (unat bn mod NBUCKET)"
  obtain m' a where f: "fold (lru_step s) ?xs (0xFFFFFFFF, None) = (m', a)"
    by (cases "fold (lru_step s) ?xs (0xFFFFFFFF, None)")
  from fold_lru_cases [OF f] cand obtain ans where
    a: "a = Some ans" "ans \<in> set ?xs" "refcnt (bufs s ! ans) = 0" "time_stamp (bufs s ! ans) = m'"
    and least: "\<forall>y\<in>set ?xs. refcnt (bufs s ! y) = 0 \<longrightarrow> m' \<le> time_stamp (bufs s ! y)"
    by auto
  from bget_on_chain [OF c K, of pid d bn] miss f a
  have "bget NBUF NBUCKET pid d bn s = acquiresleep pid ans (repurpose ans d bn s)"
    by simp
  with a least show ?thesis by auto
qed

lemma bget_never_diverges:
  assumes c: "chains_ok NBUF NBUCKET s cs" and K: "0 < NBUCKET"
  shows "bget NBUF NBUCKET pid d bn s \<noteq> Diverges"
proof -
  have A: "\<And>b t. acquiresleep pid b t \<noteq> Diverges"
    by (simp add: acquiresleep_def split: option.splits)
  have F: "\<And>i m. bget_fallback NBUF NBUCKET pid d bn i m s \<noteq> Diverges"
    by (simp add: bget_fallback_on_chain [OF c] A Let_def split: option.splits)
  show ?thesis
    by (simp add: bget_on_chain [OF c K] A F split: option.splits prod.splits)
qed

subsection \<open>The shape of the chains survives every call\<close>

text \<open>No hypothesis on how the interface is used is needed here: whatever the callers do,
  a call that comes back leaves every slot on at most one chain.\<close>

lemma chains_ok_acquiresleep:
  assumes "chains_ok NBUF NBUCKET s cs"
    and "acquiresleep pid b s = Returns (b', s') \<or> acquiresleep pid b s = Sleeps (b', s')"
  shows "chains_ok NBUF NBUCKET s' cs"
  using assms acquiresleep_cases [of pid b s] by (auto simp: chains_ok_upd)

lemma chains_ok_bget:
  assumes c: "chains_ok NBUF NBUCKET s cs" and K: "0 < NBUCKET"
    and r: "bget NBUF NBUCKET pid d bn s = Returns (b, s') \<or> bget NBUF NBUCKET pid d bn s = Sleeps (b, s')"
  shows "\<exists>cs'. chains_ok NBUF NBUCKET s' cs'"
proof -
  let ?id = "unat bn mod NBUCKET"
  from K have id: "?id < NBUCKET" by simp
  note B = bget_on_chain [OF c K, of pid d bn]
  show ?thesis
  proof (cases "find (\<lambda>i. key (bufs s ! i) = (d, bn)) (cs ?id)")
    case (Some b0)
    let ?s = "upd_buf b0 (\<lambda>x. x\<lparr>refcnt := refcnt x + 1\<rparr>) s"
    from c have 1: "chains_ok NBUF NBUCKET ?s cs" by (simp add: chains_ok_upd)
    from r B Some have "acquiresleep pid b0 ?s = Returns (b, s') \<or> acquiresleep pid b0 ?s = Sleeps (b, s')"
      by simp
    from chains_ok_acquiresleep [OF 1 this] show ?thesis by blast
  next
    case None
    obtain nowmin a where l: "fold (lru_step s) (cs ?id) (0xFFFFFFFF, None) = (nowmin, a)"
      by (cases "fold (lru_step s) (cs ?id) (0xFFFFFFFF, None)")
    show ?thesis
    proof (cases a)
      case (Some ans)
      let ?s = "repurpose ans d bn s"
      from c have 1: "chains_ok NBUF NBUCKET ?s cs" by (simp add: repurpose_def chains_ok_upd)
      from r B None l Some
      have "acquiresleep pid ans ?s = Returns (b, s') \<or> acquiresleep pid ans ?s = Sleeps (b, s')"
        by simp
      from chains_ok_acquiresleep [OF 1 this] show ?thesis by blast
    next
      case na: None
      from r B None l na
      have F: "bget_fallback NBUF NBUCKET pid d bn ?id nowmin s = Returns (b, s')
             \<or> bget_fallback NBUF NBUCKET pid d bn ?id nowmin s = Sleeps (b, s')"
        by simp
      note FB = bget_fallback_on_chain [OF c, of pid d bn ?id nowmin]
      show ?thesis
      proof (cases "snd (fold (lru_step s) [0..<NBUF] (nowmin, None))")
        case None
        with F FB show ?thesis by simp
      next
        case (Some ans)
        let ?f = "unat (blockno (bufs s ! ans)) mod 13"
        from F FB Some have f: "?f < NBUCKET"
          by (auto simp: Let_def split: if_splits)
        from F FB Some f have mem: "ans \<in> set (cs ?f)"
          by (auto simp: Let_def split: if_splits)
        let ?s1 = "set_next (last (Head ?f # map Slot (takeWhile (\<lambda>x. x \<noteq> ans) (cs ?f)))) (next (bufs s ! ans)) s"
        let ?s2 = "set_next (Slot ans) (heads ?s1 ! ?id) ?s1"
        let ?s4 = "repurpose ans d bn (?s2\<lparr>heads := (heads ?s2)[?id := Some ans]\<rparr>)"
        from fallback_shape [OF c id l [unfolded na] Some f mem, of d bn]
        obtain cs' where 1: "chains_ok NBUF NBUCKET ?s4 cs'"
          by blast
        from F FB Some f mem
        have "acquiresleep pid ans ?s4 = Returns (b, s') \<or> acquiresleep pid ans ?s4 = Sleeps (b, s')"
          by (simp add: Let_def)
        from chains_ok_acquiresleep [OF 1 this] show ?thesis by blast
      qed
    qed
  qed
qed

lemma chains_ok_do_call:
  assumes c: "\<exists>cs. chains_ok NBUF NBUCKET s cs" and K: "0 < NBUCKET"
    and r: "do_call NBUF NBUCKET c s = Returns s' \<or> do_call NBUF NBUCKET c s = Sleeps s'"
  shows "\<exists>cs'. chains_ok NBUF NBUCKET s' cs'"
proof -
  from c obtain cs where cs: "chains_ok NBUF NBUCKET s cs" by blast
  show ?thesis
  proof (cases c)
    case (Bget pid d bn)
    with r obtain b where "bget NBUF NBUCKET pid d bn s = Returns (b, s') \<or> bget NBUF NBUCKET pid d bn s = Sleeps (b, s')"
      by (cases "bget NBUF NBUCKET pid d bn s") auto
    with cs K show ?thesis by (rule chains_ok_bget)
  next
    case (Brelse pid ticks b)
    with r have "brelse pid ticks b s = Returns s'"
      by (auto simp: brelse_def Let_def split: if_splits)
    with cs have "chains_ok NBUF NBUCKET s' cs"
      by (auto simp: brelse_def releasesleep_def Let_def chains_ok_upd split: if_splits)
    then show ?thesis by blast
  next
    case (Bpin b)
    with cs r have "chains_ok NBUF NBUCKET s' cs"
      by (auto simp: bpin_def chains_ok_upd)
    then show ?thesis by blast
  next
    case (Bunpin b)
    with cs r have "chains_ok NBUF NBUCKET s' cs"
      by (auto simp: bunpin_def chains_ok_upd)
    then show ?thesis by blast
  next
    case (Resume pid b)
    with r obtain b' where "acquiresleep pid b s = Returns (b', s') \<or> acquiresleep pid b s = Sleeps (b', s')"
      by (cases "acquiresleep pid b s") auto
    from chains_ok_acquiresleep [OF cs this] show ?thesis by blast
  qed
qed

lemma chains_ok_run:
  "\<exists>cs. chains_ok NBUF NBUCKET s cs \<Longrightarrow> 0 < NBUCKET \<Longrightarrow>
   run NBUF NBUCKET calls s = Returns s' \<Longrightarrow> \<exists>cs'. chains_ok NBUF NBUCKET s' cs'"
proof (induction calls arbitrary: s)
  case Nil
  then show ?case by simp
next
  case (Cons c calls)
  from Cons.prems(3) obtain s1 where
    s1: "do_call NBUF NBUCKET c s = Returns s1 \<or> do_call NBUF NBUCKET c s = Sleeps s1"
    and rest: "run NBUF NBUCKET calls s1 = Returns s'"
    by (cases "do_call NBUF NBUCKET c s") auto
  from Cons.prems(1,2) s1 have "\<exists>cs. chains_ok NBUF NBUCKET s1 cs"
    by (rule chains_ok_do_call)
  from Cons.IH [OF this Cons.prems(2) rest] show ?case .
qed

section \<open>The claims about the buffer cache\<close>


text \<open>
  C1, as stated, fails: on a cache miss \<open>bget\<close> returns the buffer with \<open>valid\<close> 0.
  Here a freshly booted cache is asked for block 0 of device 1.
\<close>

theorem bget_miss_invalid_counterexample:
  "map_outcome (valid \<circ> returned_buf) (bget 26 13 7 1 0 (boot 26 13)) = Returns 0"
  by code_simp

text \<open>
  C1, as amended. In a cache of the right shape (the one \<open>binit\<close> builds and every call
  keeps: \<open>chains_ok_boot\<close>, \<open>chains_ok_run\<close>), a buffer that \<open>bget\<close> returns is a
  slot of the pool that carries the requested device and block number; its sleep lock
  was free and is now held by the caller. Its content is not guaranteed loaded: after a
  miss \<open>valid\<close> is 0, after a hit \<open>valid\<close> is what it was. It is \<open>bread\<close> whose
  returned buffer always has \<open>valid\<close> set, besides the key and the lock.
\<close>


theorem bget_locks_bread_loads:
  assumes "chains_ok NBUF NBUCKET s cs" and "0 < NBUCKET"
  shows "(bget NBUF NBUCKET pid d bn s = Returns (b, s') \<longrightarrow>
            b < NBUF \<and> key (bufs s' ! b) = (d, bn)
            \<and> lock (bufs s ! b) = None \<and> lock (bufs s' ! b) = Some pid
            \<and> (scan_cached s (d, bn) (heads s ! (unat bn mod NBUCKET)) = Some None \<longrightarrow>
                 valid (bufs s' ! b) = 0)
            \<and> (\<forall>c. scan_cached s (d, bn) (heads s ! (unat bn mod NBUCKET)) = Some (Some c) \<longrightarrow>
                 b = c \<and> valid (bufs s' ! b) = valid (bufs s ! b)))
       \<and> (bread virtio_disk_rw NBUF NBUCKET pid d bn s = Returns (b, s') \<longrightarrow>
            b < NBUF \<and> key (bufs s' ! b) = (d, bn) \<and> lock (bufs s' ! b) = Some pid
            \<and> valid (bufs s' ! b) \<noteq> 0)"
proof (intro conjI impI)
  assume r: "bget NBUF NBUCKET pid d bn s = Returns (b, s')"
  then have r': "bget NBUF NBUCKET pid d bn s = Returns (b, s') \<or> bget NBUF NBUCKET pid d bn s = Sleeps (b, s')"
    by simp
  note S = bget_summary [OF assms r']
  from S(1) show "b < NBUF" .
  from S(5) show "key (bufs s' ! b) = (d, bn)" .
  from S(7) r show "lock (bufs s ! b) = None" "lock (bufs s' ! b) = Some pid" by simp_all
  from S(3) show "\<forall>c. scan_cached s (d, bn) (heads s ! (unat bn mod NBUCKET)) = Some (Some c) \<longrightarrow>
                 b = c \<and> valid (bufs s' ! b) = valid (bufs s ! b)" by blast
  assume "scan_cached s (d, bn) (heads s ! (unat bn mod NBUCKET)) = Some None"
  with S(4) show "valid (bufs s' ! b) = 0" by simp
next
  assume rd: "bread virtio_disk_rw NBUF NBUCKET pid d bn s = Returns (b, s')"
  then obtain s1 where r: "bget NBUF NBUCKET pid d bn s = Returns (b, s1)"
    and s': "s' = (if valid (bufs s1 ! b) = 0
                  then upd_buf b (\<lambda>x. x\<lparr>data := virtio_disk_rw x, valid := 1\<rparr>) s1 else s1)"
    by (auto simp: bread_def split: outcome.splits if_splits)
  from r have r': "bget NBUF NBUCKET pid d bn s = Returns (b, s1) \<or> bget NBUF NBUCKET pid d bn s = Sleeps (b, s1)"
    by simp
  note S = bget_summary [OF assms r']
  from assms(1) bget_length [OF r'] have len: "length (bufs s1) = NBUF"
    by (simp add: chains_ok_def)
  from S(1) show "b < NBUF" .
  from S(5) s' show "key (bufs s' ! b) = (d, bn)"
    by (simp add: bufs_upd_buf key_def)
  from S(7) r s' show "lock (bufs s' ! b) = Some pid"
    by (simp add: bufs_upd_buf)
  from S(1) len s' show "valid (bufs s' ! b) \<noteq> 0"
    by (simp add: bufs_upd_buf)
qed

theorem bget_locks_bread_loads_witness:
  "map_outcome (key \<circ> returned_buf) (bget 26 13 7 1 0 (boot 26 13)) = Returns (1, 0)
   \<and> map_outcome (lock \<circ> returned_buf) (bget 26 13 7 1 0 (boot 26 13)) = Returns (Some 7)
   \<and> map_outcome (valid \<circ> returned_buf) (bget 26 13 7 1 0 (boot 26 13)) = Returns 0
   \<and> map_outcome (valid \<circ> returned_buf) (bread (\<lambda>x. []) 26 13 7 1 0 (boot 26 13)) = Returns 1"
proof -
  obtain cs where c: "chains_ok 26 13 (boot 26 13) cs"
    using chains_ok_boot [of 13 26] by auto
  have "case bget 26 13 7 1 0 (boot 26 13) of Returns r \<Rightarrow> True | _ \<Rightarrow> False"
    by code_simp
  then obtain b s' where r: "bget 26 13 7 1 0 (boot 26 13) = Returns (b, s')"
    by (auto split: outcome.splits)
  have m: "scan_cached (boot 26 13) (1, 0) (heads (boot 26 13) ! (unat (0 :: uint) mod 13)) = Some None"
    by code_simp
  have "map_outcome (valid \<circ> returned_buf) (bread (\<lambda>x. []) 26 13 7 1 0 (boot 26 13)) = Returns 1"
    by code_simp
  with bget_locks_bread_loads [OF c, of 7 1 0 b s'] r m show ?thesis
    by (simp add: returned_buf_def)
qed



text \<open>
  C3. The fallback of \<open>bget\<close> unlinks the victim from bucket \<open>blockno % 13\<close>, whatever
  \<open>NBUCKET\<close> is. With three buckets and a pool of three: block 14 is cached in slot 2
  on the chain of bucket \<open>14 % 3 = 2\<close> and released; blocks 1 and 0 take the slots 1
  and 0; the request for block 3 finds bucket 0 full and picks slot 2 as victim. The
  victim is looked for on the chain of bucket \<open>14 % 13 = 1\<close>, where it is not, and the
  walk runs into the null pointer.
\<close>

theorem findid_thirteen_faults:
  "run 3 3 [Bget 1 0 14, Brelse 1 5 2, Bget 1 0 1, Bget 1 0 0, Bget 1 0 3] (boot 3 3) = Faults"
  by code_simp

text \<open>
  C4. \<open>binit\<close> gives each bucket \<open>NBUF / NBUCKET\<close> slots, so \<open>NBUF % NBUCKET\<close> slots end
  up on no chain. With \<open>NBUF = 30\<close> and \<open>NBUCKET = 13\<close> the chains hold the slots 0 to 25
  and the slots 26 to 29 are on none. Once the 26 chained slots are in use, the next miss
  (here in bucket 1) picks slot 26 as victim, looks for it on the chain of bucket 0 and
  runs into the null pointer.
\<close>

theorem binit_leaves_slots_unchained:
  "list_all2 (chain (boot 30 13)) (heads (boot 30 13))
     [[1, 0], [3, 2], [5, 4], [7, 6], [9, 8], [11, 10], [13, 12], [15, 14], [17, 16],
      [19, 18], [21, 20], [23, 22], [25, 24]]
   \<and> length (bufs (boot 30 13)) = 30
   \<and> run 30 13 (concat (map (\<lambda>i. [Bget 1 0 (of_nat i), Bget 1 1 (of_nat i)]) [0..<13]) @ [Bget 1 2 1])
        (boot 30 13) = Faults"
  by code_simp

text \<open>
  C5. \<open>bget\<close> panics although a descriptor has reference count 0: the scans start from
  \<open>nowmin = UINT32_MAX\<close> and compare with \<open><\<close>, so a descriptor released when the tick
  counter read \<open>UINT32_MAX\<close> is never chosen. Here all 26 slots are taken, slot 1 is
  released at that tick, and the next miss panics while slot 1 is free. What the code
  does in general is the lemma \<open>bget_fallback_panics_iff\<close>.
\<close>

theorem bget_panics_with_idle_slot:
  "map_outcome (\<lambda>s. refcnt (bufs s ! 1))
     (run 26 13 (concat (map (\<lambda>i. [Bget 1 0 (of_nat i), Bget 1 1 (of_nat i)]) [0..<13])
                 @ [Brelse 1 0xFFFFFFFF 1]) (boot 26 13)) = Returns 0
   \<and> run 26 13 (concat (map (\<lambda>i. [Bget 1 0 (of_nat i), Bget 1 1 (of_nat i)]) [0..<13])
                 @ [Brelse 1 0xFFFFFFFF 1, Bget 1 2 0]) (boot 26 13) = Panics ''bget: no buffers''"
  by code_simp

text \<open>
  C9. On a miss in a bucket whose only unreferenced descriptor has the time stamp
  \<open>UINT32_MAX\<close>, \<open>bget\<close> does not take that descriptor. Bucket 0 holds slot 0
  (referenced) and slot 1 (released at tick \<open>UINT32_MAX\<close>); the miss for block 0 of
  device 2 returns slot 2, taken from bucket 1 by the fallback. With a time stamp below
  \<open>UINT32_MAX\<close> in the bucket the code does what the claim says: the lemma
  \<open>bget_recycles_oldest\<close>.
\<close>

theorem bget_skips_idle_slot_of_bucket:
  "map_outcome (\<lambda>s. map (\<lambda>x. (refcnt x, time_stamp x)) (take 2 (bufs s)))
      (run 26 13 [Bget 1 0 0, Bget 1 1 0, Brelse 1 0xFFFFFFFF 1] (boot 26 13))
     = Returns [(1, 0), (0, 0xFFFFFFFF)]
   \<and> map_outcome fst
      (case run 26 13 [Bget 1 0 0, Bget 1 1 0, Brelse 1 0xFFFFFFFF 1] (boot 26 13) of
         Returns s \<Rightarrow> bget 26 13 1 2 0 s | other \<Rightarrow> Faults) = Returns 2"
  by code_simp





text \<open>
  C10, as stated, fails in its last part: the descriptor does not stay ineligible. After
  \<open>bunpin\<close> has wrapped the count of slot 1 to \<open>UINT32_MAX\<close>, a cache hit on its block
  increments the count to 0 while the caller holds the buffer, and the next miss in the
  bucket repurposes the slot for block 0 of device 1.
\<close>

theorem unpinned_slot_evicted_counterexample:
  "map_outcome (\<lambda>s. refcnt (bufs s ! 1)) (run 26 13 [Bunpin 1] (boot 26 13)) = Returns 0xFFFFFFFF
   \<and> map_outcome (\<lambda>s. (key (bufs s ! 1), refcnt (bufs s ! 1), lock (bufs s ! 1)))
        (run 26 13 [Bunpin 1, Bget 1 0 0] (boot 26 13)) = Returns ((0, 0), 0, Some 1)
   \<and> map_outcome (\<lambda>s. (key (bufs s ! 1), refcnt (bufs s ! 1), lock (bufs s ! 1)))
        (run 26 13 [Bunpin 1, Bget 1 0 0, Bget 2 1 0] (boot 26 13)) = Returns ((1, 0), 1, Some 1)"
  by code_simp

text \<open>
  C10, as amended. \<open>bunpin\<close> has no check and no \<open>panic\<close>: it decrements the reference
  count and changes nothing else; on a count of 0 the result is \<open>UINT32_MAX\<close>, and the
  cache keeps its shape. In a cache of the right shape (every cache reached from \<open>binit\<close>
  has it: \<open>chains_ok_run\<close>), \<open>bget\<close> leaves the key and the
  \<open>valid\<close> flag of every descriptor with a nonzero reference count as they are: such a
  descriptor is not evicted as long as its count is not 0.
\<close>


theorem bunpin_wraps_and_pins:
  assumes "chains_ok NBUF NBUCKET s cs" and "0 < NBUCKET" and "b < NBUF"
  shows "bufs (bunpin b s) ! b = (bufs s ! b)\<lparr>refcnt := refcnt (bufs s ! b) - 1\<rparr>
     \<and> (refcnt (bufs s ! b) = 0 \<longrightarrow> refcnt (bufs (bunpin b s) ! b) = 0xFFFFFFFF)
     \<and> chains_ok NBUF NBUCKET (bunpin b s) cs
     \<and> (refcnt (bufs s ! b) \<noteq> 0
          \<and> (bget NBUF NBUCKET pid d bn s = Returns (b', s') \<or> bget NBUF NBUCKET pid d bn s = Sleeps (b', s'))
        \<longrightarrow> key (bufs s' ! b) = key (bufs s ! b) \<and> valid (bufs s' ! b) = valid (bufs s ! b))"
proof (intro conjI impI)
  from assms have len: "b < length (bufs s)" by (simp add: chains_ok_def)
  then show u: "bufs (bunpin b s) ! b = (bufs s ! b)\<lparr>refcnt := refcnt (bufs s ! b) - 1\<rparr>"
    by (simp add: bunpin_def bufs_upd_buf)
  show "chains_ok NBUF NBUCKET (bunpin b s) cs"
    using assms(1) by (simp add: bunpin_def chains_ok_upd)
  {
    assume "refcnt (bufs s ! b) = 0"
    with u show "refcnt (bufs (bunpin b s) ! b) = 0xFFFFFFFF" by simp
  }
  assume a: "refcnt (bufs s ! b) \<noteq> 0
          \<and> (bget NBUF NBUCKET pid d bn s = Returns (b', s') \<or> bget NBUF NBUCKET pid d bn s = Sleeps (b', s'))"
  then have r: "bget NBUF NBUCKET pid d bn s = Returns (b', s') \<or> bget NBUF NBUCKET pid d bn s = Sleeps (b', s')"
    by simp
  note S = bget_summary [OF assms(1,2) r]
  show "key (bufs s' ! b) = key (bufs s ! b)" "valid (bufs s' ! b) = valid (bufs s ! b)"
  proof -
    show "key (bufs s' ! b) = key (bufs s ! b)"
    proof (cases "b = b'")
      case False
      with S(2) show ?thesis by simp
    next
      case True
      from S(6) obtain x where x: "scan_cached s (d, bn) (heads s ! (unat bn mod NBUCKET)) = Some x" by auto
      show ?thesis
      proof (cases x)
        case None
        with x S(4) a True show ?thesis by auto
      next
        case (Some c)
        with x S(3) True show ?thesis by auto
      qed
    qed
    show "valid (bufs s' ! b) = valid (bufs s ! b)"
    proof (cases "b = b'")
      case False
      with S(2) show ?thesis by simp
    next
      case True
      from S(6) obtain x where x: "scan_cached s (d, bn) (heads s ! (unat bn mod NBUCKET)) = Some x" by auto
      show ?thesis
      proof (cases x)
        case None
        with x S(4) a True show ?thesis by auto
      next
        case (Some c)
        with x S(3) True show ?thesis by auto
      qed
    qed
  qed
qed

theorem bunpin_wraps_and_pins_witness:
  "refcnt (bufs (boot 26 13) ! 1) = 0
   \<and> refcnt (bufs (bunpin 1 (boot 26 13)) ! 1) = 0xFFFFFFFF
   \<and> map_outcome (\<lambda>r. key (bufs (snd r) ! 1)) (bget 26 13 2 1 0 (bunpin 1 (boot 26 13))) = Returns (0, 0)"
proof -
  obtain cs where c: "chains_ok 26 13 (boot 26 13) cs"
    using chains_ok_boot [of 13 26] by auto
  have z: "refcnt (bufs (boot 26 13) ! 1) = 0"
    by code_simp
  note W = bunpin_wraps_and_pins [OF c, of 1]
  from W z have u: "bufs (bunpin 1 (boot 26 13)) ! 1 = (bufs (boot 26 13) ! 1)\<lparr>refcnt := 0 - 1\<rparr>"
    and c': "chains_ok 26 13 (bunpin 1 (boot 26 13)) cs"
    by simp_all
  have "case bget 26 13 2 1 0 (bunpin 1 (boot 26 13)) of Returns r \<Rightarrow> True | _ \<Rightarrow> False"
    by code_simp
  then obtain b' s' where r: "bget 26 13 2 1 0 (bunpin 1 (boot 26 13)) = Returns (b', s')"
    by (auto split: outcome.splits)
  have k: "key (bufs (boot 26 13) ! 1) = (0, 0)"
    by code_simp
  from bunpin_wraps_and_pins [OF c', of 1 2 1 0 b' s'] r u k z
  show ?thesis by (simp add: key_def)
qed

end
